theory Spec2Isabelle
  imports Main "HOL-Library.Sublist"
begin

section \<open>JavaScript strings and numbers\<close>

text \<open>
  A JavaScript string is modelled as a list of code units in the Latin-1 range
  (\<^typ>\<open>char\<close> is eight bits wide).  In that range the regular-expression class
  \<^verbatim>\<open>\s\<close> and \<^verbatim>\<open>String.prototype.trim\<close> recognise tab, line feed,
  vertical tab, form feed, carriage return, space and the no-break space.
\<close>

abbreviation dq :: string where
  "dq \<equiv> [CHR 0x22]"

abbreviation bslash :: string where
  "bslash \<equiv> [CHR 0x5C]"

abbreviation nl :: string where
  "nl \<equiv> [CHR 0x0A]"

definition isWhitespace :: "char \<Rightarrow> bool" where
  "isWhitespace c \<longleftrightarrow>
     c \<in> set [CHR 0x09, CHR 0x0A, CHR 0x0B, CHR 0x0C, CHR 0x0D, CHR 0x20, CHR 0xA0]"

definition isDigit :: "char \<Rightarrow> bool" where
  "isDigit c \<longleftrightarrow> (48::nat) \<le> of_char c \<and> of_char c \<le> (57::nat)"

definition isAsciiLetter :: "char \<Rightarrow> bool" where
  "isAsciiLetter c \<longleftrightarrow>
     ((65::nat) \<le> of_char c \<and> of_char c \<le> (90::nat)) \<or>
     ((97::nat) \<le> of_char c \<and> of_char c \<le> (122::nat))"

definition toLowerChar :: "char \<Rightarrow> char" where
  "toLowerChar c =
     (let n = (of_char c :: nat) in
      if (65 \<le> n \<and> n \<le> 90) \<or> (192 \<le> n \<and> n \<le> 222 \<and> n \<noteq> 215)
      then char_of (n + 32) else c)"

definition toLowerCase :: "string \<Rightarrow> string" where
  "toLowerCase s = map toLowerChar s"

definition trim :: "string \<Rightarrow> string" where
  "trim s = rev (dropWhile isWhitespace (rev (dropWhile isWhitespace s)))"

definition startsWith :: "string \<Rightarrow> string \<Rightarrow> bool" where
  "startsWith s p \<longleftrightarrow> take (length p) s = p"

definition endsWith :: "string \<Rightarrow> string \<Rightarrow> bool" where
  "endsWith s p \<longleftrightarrow> length p \<le> length s \<and> drop (length s - length p) s = p"

text \<open>\<^verbatim>\<open>s.slice(a, b)\<close> for \<open>0 \<le> a\<close>, \<open>0 \<le> b\<close>.\<close>

definition slice :: "string \<Rightarrow> nat \<Rightarrow> nat \<Rightarrow> string" where
  "slice s a b = take (b - a) (drop a s)"

text \<open>\<^verbatim>\<open>s[i]\<close>: \<open>None\<close> stands for \<^verbatim>\<open>undefined\<close>.\<close>

definition charAt :: "string \<Rightarrow> nat \<Rightarrow> char option" where
  "charAt s i = (if i < length s then Some (s ! i) else None)"

text \<open>\<^verbatim>\<open>xs.join(sep)\<close>\<close>

fun join :: "string \<Rightarrow> string list \<Rightarrow> string" where
  "join sep [] = []"
| "join sep [x] = x"
| "join sep (x # y # ys) = x @ sep @ join sep (y # ys)"

text \<open>\<^verbatim>\<open>s.includes(t)\<close>\<close>

fun strIncludes :: "string \<Rightarrow> string \<Rightarrow> bool" where
  "strIncludes [] t = (t = [])"
| "strIncludes (c # cs) t = (take (length t) (c # cs) = t \<or> strIncludes cs t)"

text \<open>Decimal rendering of a counter, as template interpolation does.\<close>

definition digitChar :: "nat \<Rightarrow> char" where
  "digitChar d = char_of (48 + d)"

function showNat :: "nat \<Rightarrow> string" where
  "showNat n = (if n < 10 then [digitChar n] else showNat (n div 10) @ [digitChar (n mod 10)])"
  by pat_completeness auto
termination
  by (relation "measure id") auto

declare showNat.simps [simp del]

definition showInt :: "int \<Rightarrow> string" where
  "showInt i = (if i < 0 then ''-'' @ showNat (nat (- i)) else showNat (nat i))"

text \<open>\<^verbatim>\<open>parseInt(ds, 10)\<close> on a string of decimal digits.\<close>

definition digitVal :: "char \<Rightarrow> nat" where
  "digitVal c = of_char c - 48"

definition parseInt :: "string \<Rightarrow> nat" where
  "parseInt ds = foldl (\<lambda>acc c. 10 * acc + digitVal c) 0 ds"

text \<open>
  A JavaScript number that is either an integer or \<^verbatim>\<open>NaN\<close>; the values
  that reach query arguments are numbers, strings or \<^verbatim>\<open>undefined\<close>.
\<close>

datatype number = Num int | NaN

datatype jsval = JNumber number | JString string | JUndefined

fun numAdd :: "number \<Rightarrow> int \<Rightarrow> number" where
  "numAdd (Num a) b = Num (a + b)"
| "numAdd NaN b = NaN"

section \<open>The Date built-in\<close>

text \<open>
  \<^verbatim>\<open>new Date(y, m, d).getTime()\<close> follows ECMAScript: years 0..99 mean
  1900..1999, \<open>MakeDay\<close> normalises the month into the year and counts days from the
  first of that month, the local time value is converted to UTC by subtracting the local
  time zone adjustment, and \<open>TimeClip\<close> turns a value beyond \<open>8.64e15\<close> into
  \<^verbatim>\<open>NaN\<close>.  What the runtime alone decides is a parameter: the calendar fields
  of the current local time, the local time zone adjustment, and the result of parsing
  a date string.
\<close>

record clock =
  nowFullYear :: int
  nowMonth :: int
  nowDate :: int
  nowDay :: int
  localTZA :: "int \<Rightarrow> int"
  dateParse :: "string \<Rightarrow> number"

definition msPerDay :: int where
  "msPerDay = 24 * 60 * 60 * 1000"

definition DayFromYear :: "int \<Rightarrow> int" where
  "DayFromYear y =
     365 * (y - 1970) + (y - 1969) div 4 - (y - 1901) div 100 + (y - 1601) div 400"

definition InLeapYear :: "int \<Rightarrow> bool" where
  "InLeapYear y \<longleftrightarrow> y mod 4 = 0 \<and> (y mod 100 \<noteq> 0 \<or> y mod 400 = 0)"

definition monthStart :: "int \<Rightarrow> bool \<Rightarrow> int" where
  "monthStart mn leap =
     [0, 31, 59, 90, 120, 151, 181, 212, 243, 273, 304, 334] ! nat mn
       + (if leap \<and> 2 \<le> mn then 1 else 0)"

definition MakeDay :: "int \<Rightarrow> int \<Rightarrow> int \<Rightarrow> int" where
  "MakeDay y m d =
     (let ym = y + m div 12; mn = m mod 12
      in DayFromYear ym + monthStart mn (InLeapYear ym) + d - 1)"

definition TimeClip :: "int \<Rightarrow> number" where
  "TimeClip t = (if \<bar>t\<bar> > 8640000000000000 then NaN else Num t)"

definition newDateYMD :: "clock \<Rightarrow> int \<Rightarrow> int \<Rightarrow> int \<Rightarrow> number" where
  "newDateYMD clk y m d =
     (let yr = (if 0 \<le> y \<and> y \<le> 99 then 1900 + y else y);
          t = MakeDay yr m d * msPerDay
      in TimeClip (t - localTZA clk t))"

text \<open>\<^verbatim>\<open>new Date(ms).getTime()\<close> for a number \<open>ms\<close>.\<close>

fun newDateMs :: "number \<Rightarrow> number" where
  "newDateMs (Num t) = TimeClip t"
| "newDateMs NaN = NaN"

section \<open>Query AST and clause sets (types.ts)\<close>

datatype QueryNode =
    AndNode "QueryNode list"
  | OrNode "QueryNode list"
  | NotNode QueryNode
  | BetweenNode string string
  | TagNode string
  | BlockRefNode string
  | SearchNode string
  | DailyNotesNode
  | ByNode string
  | CreatedByNode string
  | EditedByNode string

record DatalogClauses =
  whereClauses :: "string list"
  inputs :: "string list"
  inputValues :: "jsval list"

record QueryOptions =
  limit :: "int option"
  offset :: "int option"
  orderBy :: "string option"
  pageUid :: "string option"

section \<open>Clause generator (generator.ts)\<close>

text \<open>
  A thrown value.  \<^verbatim>\<open>QueryParseError\<close> (message and position) and \<^verbatim>\<open>Error\<close>
  (message) are instances of \<^verbatim>\<open>Error\<close>.  Any other value is given by what
  \<^verbatim>\<open>String\<close> does on it: the string it returns, or the value it throws (a value with
  no primitive conversion, such as \<^verbatim>\<open>Object.create(null)\<close>, or one whose
  \<^verbatim>\<open>toString\<close> throws).
\<close>

datatype error = QueryParseError string nat | Error string | NonError "error + string"

text \<open>\<^verbatim>\<open>error instanceof Error ? error.message : String(error)\<close>\<close>

fun errorMessage :: "error \<Rightarrow> error + string" where
  "errorMessage (QueryParseError msg p) = Inr msg"
| "errorMessage (Error msg) = Inr msg"
| "errorMessage (NonError conversion) = conversion"

record gen_state =
  refCounter :: nat
  inputCounter :: nat

text \<open>\<^verbatim>\<open>str.replace(/\\/g, '\\\\').replace(/"/g, '\\"')\<close>\<close>

definition replaceAllChar :: "char \<Rightarrow> string \<Rightarrow> string \<Rightarrow> string" where
  "replaceAllChar c r s = concat (map (\<lambda>x. if x = c then r else [x]) s)"

definition escapeString :: "string \<Rightarrow> string" where
  "escapeString str =
     replaceAllChar (CHR 0x22) (bslash @ dq) (replaceAllChar (CHR 0x5C) (bslash @ bslash) str)"

text \<open>
  A \<^verbatim>\<open>Date\<close> object as far as the generator reads it: its time value and
  its local calendar fields.  \<^verbatim>\<open>startOfToday\<close> is built from the calendar
  fields of \<^verbatim>\<open>now\<close>, which are therefore its own.
\<close>

record jsdate =
  getTime :: number
  getFullYear :: int
  getMonth :: int
  getDate :: int

definition startOfToday :: "clock \<Rightarrow> jsdate" where
  "startOfToday clk =
     \<lparr> getTime = newDateYMD clk (nowFullYear clk) (nowMonth clk) (nowDate clk),
       getFullYear = nowFullYear clk, getMonth = nowMonth clk, getDate = nowDate clk \<rparr>"

definition subtractFromDate :: "clock \<Rightarrow> jsdate \<Rightarrow> nat \<Rightarrow> string \<Rightarrow> number" where
  "subtractFromDate clk date amount unit =
     (if unit = ''day'' then newDateMs (numAdd (getTime date) (- (int amount * 24 * 60 * 60 * 1000)))
      else if unit = ''week'' then
        newDateMs (numAdd (getTime date) (- (int amount * 7 * 24 * 60 * 60 * 1000)))
      else if unit = ''month'' then
        (if getTime date = NaN then NaN
         else newDateYMD clk (getFullYear date) (getMonth date - int amount) (getDate date))
      else if unit = ''year'' then
        (if getTime date = NaN then NaN
         else newDateYMD clk (getFullYear date - int amount) (getMonth date) (getDate date))
      else getTime date)"

text \<open>
  The pattern \<^verbatim>\<open>/^(\d+)\s+(day|week|month|year)s?\s+ago$/\<close>: the digits and
  the unit it captures.  Digits, white space and letters are disjoint classes, so the
  greedy match is the only one.
\<close>

definition agoMatch :: "string \<Rightarrow> (string \<times> string) option" where
  "agoMatch s =
     (let ds = takeWhile isDigit s; r1 = dropWhile isDigit s;
          r2 = dropWhile isWhitespace r1
      in if ds = [] \<or> r1 = r2 then None
         else
           (case filter (\<lambda>u. startsWith r2 u) [''day'', ''week'', ''month'', ''year''] of
              [] \<Rightarrow> None
            | u # _ \<Rightarrow>
                (let r3 = drop (length u) r2;
                     r4 = (if startsWith r3 ''s'' then drop 1 r3 else r3);
                     r5 = dropWhile isWhitespace r4
                 in if r4 \<noteq> r5 \<and> r5 = ''ago'' then Some (ds, u) else None)))"

definition parseRelativeDate :: "clock \<Rightarrow> string \<Rightarrow> number option" where
  "parseRelativeDate clk dateStr =
     (let today = startOfToday clk; t = getTime today;
          y = nowFullYear clk; m = nowMonth clk; d = nowDate clk
      in if dateStr = ''today'' then Some t
         else if dateStr = ''yesterday'' then Some (newDateMs (numAdd t (- (24 * 60 * 60 * 1000))))
         else if dateStr = ''tomorrow'' then Some (newDateMs (numAdd t (24 * 60 * 60 * 1000)))
         else if dateStr = ''last week'' \<or> dateStr = ''a week ago'' then
           Some (newDateMs (numAdd t (- (7 * 24 * 60 * 60 * 1000))))
         else if dateStr = ''this week'' then
           Some (newDateMs (numAdd t (- (nowDay clk * 24 * 60 * 60 * 1000))))
         else if dateStr = ''next week'' then
           Some (newDateMs (numAdd t (7 * 24 * 60 * 60 * 1000)))
         else if dateStr = ''last month'' \<or> dateStr = ''a month ago'' then
           Some (newDateYMD clk y (m - 1) d)
         else if dateStr = ''this month'' then Some (newDateYMD clk y m 1)
         else if dateStr = ''next month'' then Some (newDateYMD clk y (m + 1) d)
         else if dateStr = ''last year'' \<or> dateStr = ''a year ago'' then
           Some (newDateYMD clk (y - 1) m d)
         else if dateStr = ''this year'' then Some (newDateYMD clk y 0 1)
         else if dateStr = ''next year'' then Some (newDateYMD clk (y + 1) m d)
         else
           (case agoMatch dateStr of
              Some (ds, unit) \<Rightarrow> Some (subtractFromDate clk today (parseInt ds) unit)
            | None \<Rightarrow> None))"

text \<open>
  \<^verbatim>\<open>dateStr.replace(/(\d+)(st|nd|rd|th)/, '$1')\<close>: the first run of digits
  that an ordinal suffix follows loses that suffix.  The flag tells whether the
  previous character was a digit.
\<close>

fun stripOrdinal :: "bool \<Rightarrow> string \<Rightarrow> string" where
  "stripOrdinal prev [] = []"
| "stripOrdinal prev (c # cs) =
     (if isDigit c then c # stripOrdinal True cs
      else if prev \<and> take 2 (c # cs) \<in> set [''st'', ''nd'', ''rd'', ''th'']
      then drop 2 (c # cs)
      else c # stripOrdinal False cs)"

definition roamDateToTimestamp :: "clock \<Rightarrow> string \<Rightarrow> error + number" where
  "roamDateToTimestamp clk dateStr =
     (let normalized = trim (toLowerCase dateStr)
      in case parseRelativeDate clk normalized of
           Some relativeDate \<Rightarrow> Inr relativeDate
         | None \<Rightarrow>
             (let cleaned = stripOrdinal False dateStr;
                  date = dateParse clk cleaned
              in if date = NaN then
                   (let isoDate = dateParse clk dateStr
                    in if isoDate \<noteq> NaN then Inr isoDate
                       else Inl (Error (''Cannot parse date: '' @ dateStr)))
                 else Inr date))"

definition emptyClauses :: DatalogClauses where
  "emptyClauses = \<lparr> whereClauses = [], inputs = [], inputValues = [] \<rparr>"

definition generateBetween ::
  "clock \<Rightarrow> string \<Rightarrow> string \<Rightarrow> string \<Rightarrow> gen_state \<Rightarrow> error + (DatalogClauses \<times> gen_state)" where
  "generateBetween clk startDate endDate blockVar st =
     (let startVar = ''?start-date-'' @ showNat (inputCounter st);
          st1 = st\<lparr>inputCounter := inputCounter st + 1\<rparr>;
          endVar = ''?end-date-'' @ showNat (inputCounter st1);
          st2 = st1\<lparr>inputCounter := inputCounter st1 + 1\<rparr>
      in case roamDateToTimestamp clk startDate of
           Inl e \<Rightarrow> Inl e
         | Inr startTs \<Rightarrow>
             (case roamDateToTimestamp clk endDate of
                Inl e \<Rightarrow> Inl e
              | Inr endRaw \<Rightarrow>
                  (let endTs = numAdd endRaw (24 * 60 * 60 * 1000 - 1)
                   in Inr (\<lparr> whereClauses =
                               [''['' @ blockVar @ '' :create/time ?create-time]'',
                                ''[(>= ?create-time '' @ startVar @ '')]'',
                                ''[(<= ?create-time '' @ endVar @ '')]''],
                             inputs = [startVar, endVar],
                             inputValues = [JNumber startTs, JNumber endTs] \<rparr>, st2))))"

definition generateTag :: "string \<Rightarrow> string \<Rightarrow> gen_state \<Rightarrow> DatalogClauses \<times> gen_state" where
  "generateTag tagName blockVar st =
     (let refVar = ''?ref-'' @ showNat (refCounter st)
      in (\<lparr> whereClauses =
               [''['' @ refVar @ '' :node/title '' @ dq @ escapeString tagName @ dq @ '']'',
                ''['' @ blockVar @ '' :block/refs '' @ refVar @ '']''],
             inputs = [], inputValues = [] \<rparr>,
          st\<lparr>refCounter := refCounter st + 1\<rparr>))"

definition generateBlockRef :: "string \<Rightarrow> string \<Rightarrow> gen_state \<Rightarrow> DatalogClauses \<times> gen_state" where
  "generateBlockRef uid blockVar st =
     (let refVar = ''?block-ref-'' @ showNat (refCounter st)
      in (\<lparr> whereClauses =
               [''['' @ refVar @ '' :block/uid '' @ dq @ escapeString uid @ dq @ '']'',
                ''['' @ blockVar @ '' :block/refs '' @ refVar @ '']''],
             inputs = [], inputValues = [] \<rparr>,
          st\<lparr>refCounter := refCounter st + 1\<rparr>))"

definition generateSearch :: "string \<Rightarrow> string \<Rightarrow> DatalogClauses" where
  "generateSearch text blockVar =
     \<lparr> whereClauses =
         [''[(clojure.string/includes? ?block-str '' @ dq @ escapeString text @ dq @ '')]''],
       inputs = [], inputValues = [] \<rparr>"

definition generateDailyNotes :: "string \<Rightarrow> DatalogClauses" where
  "generateDailyNotes blockVar =
     \<lparr> whereClauses =
         [''['' @ blockVar @ '' :block/page ?daily-page]'',
          ''[?daily-page :node/title ?daily-title]'',
          ''[(re-find #'' @ dq @
            ''^(January|February|March|April|May|June|July|August|September|October|November|December) ''
            @ bslash @ ''d{1,2}(st|nd|rd|th), '' @ bslash @ ''d{4}$'' @ dq @ '' ?daily-title)]''],
       inputs = [], inputValues = [] \<rparr>"

definition generateBy :: "string \<Rightarrow> string \<Rightarrow> DatalogClauses" where
  "generateBy user blockVar =
     (let escapedUser = escapeString user
      in \<lparr> whereClauses =
             [''(or-join ['' @ blockVar @ '']'' @ nl @
              ''        (and ['' @ blockVar @ '' :create/user ?by-creator]'' @ nl @
              ''             [?by-creator :user/display-name '' @ dq @ escapedUser @ dq @ ''])'' @ nl @
              ''        (and ['' @ blockVar @ '' :edit/user ?by-editor]'' @ nl @
              ''             [?by-editor :user/display-name '' @ dq @ escapedUser @ dq @ '']))''],
           inputs = [], inputValues = [] \<rparr>)"

definition generateUserClause :: "string \<Rightarrow> string \<Rightarrow> string \<Rightarrow> string \<Rightarrow> DatalogClauses" where
  "generateUserClause user blockVar attribute varName =
     \<lparr> whereClauses =
         [''['' @ blockVar @ '' '' @ attribute @ '' ?'' @ varName @ '']'',
          ''[?'' @ varName @ '' :user/display-name '' @ dq @ escapeString user @ dq @ '']''],
       inputs = [], inputValues = [] \<rparr>"

definition generateCreatedBy :: "string \<Rightarrow> string \<Rightarrow> DatalogClauses" where
  "generateCreatedBy user blockVar = generateUserClause user blockVar '':create/user'' ''creator''"

definition generateEditedBy :: "string \<Rightarrow> string \<Rightarrow> DatalogClauses" where
  "generateEditedBy user blockVar = generateUserClause user blockVar '':edit/user'' ''editor''"

text \<open>
  A child's fragments as one branch of \<^verbatim>\<open>or-join\<close> or as the content of
  \<^verbatim>\<open>not\<close>: a single fragment verbatim, anything else inside \<^verbatim>\<open>(and ...)\<close>.
\<close>

definition wrapClauses :: "string list \<Rightarrow> string" where
  "wrapClauses w = (if length w = 1 then w ! 0 else ''(and '' @ join '' '' w @ '')'')"

text \<open>
  \<^verbatim>\<open>generateNode\<close> with the two counters threaded through; the loops of
  \<^verbatim>\<open>generateAnd\<close> and \<^verbatim>\<open>generateOr\<close> carry their accumulators.  A thrown
  error is \<open>Inl\<close> and ends the walk.
\<close>

fun generateNode ::
    "clock \<Rightarrow> QueryNode \<Rightarrow> string \<Rightarrow> gen_state \<Rightarrow> error + (DatalogClauses \<times> gen_state)"
  and generateAnd ::
    "clock \<Rightarrow> QueryNode list \<Rightarrow> string \<Rightarrow> DatalogClauses \<Rightarrow> gen_state
       \<Rightarrow> error + (DatalogClauses \<times> gen_state)"
  and generateOr ::
    "clock \<Rightarrow> QueryNode list \<Rightarrow> string \<Rightarrow> string list \<times> jsval list \<times> string list \<Rightarrow> gen_state
       \<Rightarrow> error + ((string list \<times> jsval list \<times> string list) \<times> gen_state)"
where
  "generateNode clk (AndNode children) blockVar st =
     generateAnd clk children blockVar emptyClauses st"
| "generateNode clk (OrNode children) blockVar st =
     (case generateOr clk children blockVar ([], [], []) st of
        Inl e \<Rightarrow> Inl e
      | Inr ((ins, vals, orBranches), st') \<Rightarrow>
          Inr (\<lparr> whereClauses = [''(or-join ['' @ blockVar @ ''] '' @ join '' '' orBranches @ '')''],
                 inputs = ins, inputValues = vals \<rparr>, st'))"
| "generateNode clk (NotNode child) blockVar st =
     (case generateNode clk child blockVar st of
        Inl e \<Rightarrow> Inl e
      | Inr (childClauses, st') \<Rightarrow>
          Inr (\<lparr> whereClauses = [''(not '' @ wrapClauses (whereClauses childClauses) @ '')''],
                 inputs = inputs childClauses, inputValues = inputValues childClauses \<rparr>, st'))"
| "generateNode clk (BetweenNode startDate endDate) blockVar st =
     generateBetween clk startDate endDate blockVar st"
| "generateNode clk (TagNode v) blockVar st = Inr (generateTag v blockVar st)"
| "generateNode clk (BlockRefNode uid) blockVar st = Inr (generateBlockRef uid blockVar st)"
| "generateNode clk (SearchNode text) blockVar st = Inr (generateSearch text blockVar, st)"
| "generateNode clk DailyNotesNode blockVar st = Inr (generateDailyNotes blockVar, st)"
| "generateNode clk (ByNode user) blockVar st = Inr (generateBy user blockVar, st)"
| "generateNode clk (CreatedByNode user) blockVar st = Inr (generateCreatedBy user blockVar, st)"
| "generateNode clk (EditedByNode user) blockVar st = Inr (generateEditedBy user blockVar, st)"
| "generateAnd clk [] blockVar acc st = Inr (acc, st)"
| "generateAnd clk (child # rest) blockVar acc st =
     (case generateNode clk child blockVar st of
        Inl e \<Rightarrow> Inl e
      | Inr (childClauses, st') \<Rightarrow>
          generateAnd clk rest blockVar
            \<lparr> whereClauses = whereClauses acc @ whereClauses childClauses,
              inputs = inputs acc @ inputs childClauses,
              inputValues = inputValues acc @ inputValues childClauses \<rparr> st')"
| "generateOr clk [] blockVar acc st = Inr (acc, st)"
| "generateOr clk (child # rest) blockVar (ins, vals, orBranches) st =
     (case generateNode clk child blockVar st of
        Inl e \<Rightarrow> Inl e
      | Inr (childClauses, st') \<Rightarrow>
          generateOr clk rest blockVar
            (ins @ inputs childClauses, vals @ inputValues childClauses,
             orBranches @ [wrapClauses (whereClauses childClauses)]) st')"

text \<open>\<^verbatim>\<open>generate\<close> resets both counters and starts at the subject \<^verbatim>\<open>?b\<close>.\<close>

definition generate :: "clock \<Rightarrow> QueryNode \<Rightarrow> error + DatalogClauses" where
  "generate clk node =
     (case generateNode clk node ''?b'' \<lparr> refCounter = 0, inputCounter = 0 \<rparr> of
        Inl e \<Rightarrow> Inl e
      | Inr (clauses, st) \<Rightarrow>
          Inr \<lparr> whereClauses = whereClauses clauses, inputs = inputs clauses,
                inputValues = inputValues clauses \<rparr>)"

section \<open>Query builder (generator.ts, buildDatalogQuery)\<close>

record BuildOptions = QueryOptions +
  select :: "string list option"

text \<open>JavaScript truthiness of an optional string: absent and empty are both false.\<close>

definition truthy :: "string option \<Rightarrow> bool" where
  "truthy v = (case v of None \<Rightarrow> False | Some s \<Rightarrow> s \<noteq> [])"

definition inClause :: "DatalogClauses \<Rightarrow> string option \<Rightarrow> string" where
  "inClause clauses pu =
     '':in $''
       @ (if length (inputs clauses) > 0 then '' '' @ join '' '' (inputs clauses) else [])
       @ (if truthy pu then '' ?target-page-uid'' else [])"

text \<open>
  The modifiers after the \<^verbatim>\<open>:find\<close> line.  The limit and the offset are integers of
  magnitude below \<open>10\<^sup>2\<^sup>1\<close>, which template interpolation writes in decimal digits;
  larger, fractional and NaN values are outside this model.
\<close>

definition modifiers :: "BuildOptions \<Rightarrow> string list" where
  "modifiers options =
     (case limit options of
        None \<Rightarrow> []
      | Some l \<Rightarrow> if l \<noteq> - 1 then ['':limit '' @ showInt l] else [])
     @ (let off = (case offset options of None \<Rightarrow> 0 | Some x \<Rightarrow> x)
        in if off > 0 then ['':offset '' @ showInt off] else [])
     @ (if truthy (orderBy options) then ['':order '' @ the (orderBy options)] else [])"

definition baseClauses :: "string option \<Rightarrow> string list" where
  "baseClauses pu =
     [''[?b :block/string ?block-str]'',
      ''[?b :block/uid ?block-uid]'',
      ''[?b :block/page ?p]'',
      ''[?p :node/title ?page-title]'']
     @ (if truthy pu then [''[?p :block/uid ?target-page-uid]''] else [])"

definition allWhereClauses :: "DatalogClauses \<Rightarrow> string option \<Rightarrow> string list" where
  "allWhereClauses clauses pu = baseClauses pu @ whereClauses clauses"

definition buildArgs :: "DatalogClauses \<Rightarrow> string option \<Rightarrow> jsval list" where
  "buildArgs clauses pu =
     inputValues clauses @ (if truthy pu then [JString (the pu)] else [])"

abbreviation indent18 :: string where
  "indent18 \<equiv> ''                  ''"

abbreviation indent20 :: string where
  "indent20 \<equiv> ''                    ''"

definition buildDatalogQuery :: "DatalogClauses \<Rightarrow> BuildOptions \<Rightarrow> string \<times> jsval list" where
  "buildDatalogQuery clauses options =
     (let sel = (case select options of
                   None \<Rightarrow> [''?block-uid'', ''?block-str'', ''?page-title'']
                 | Some xs \<Rightarrow> xs);
          queryText =
            ''[:find '' @ join '' '' sel @ nl @
            indent18 @ inClause clauses (pageUid options) @ '' ''
              @ join '' '' (modifiers options) @ nl @
            indent18 @ '':where'' @ nl @
            indent18 @ join (nl @ indent18) (allWhereClauses clauses (pageUid options)) @ '']''
      in (queryText, buildArgs clauses (pageUid options)))"

section \<open>Executor and block utilities (query/index.ts)\<close>

definition countBaseClauses :: "string option \<Rightarrow> string list" where
  "countBaseClauses pu =
     [''[?b :block/string ?block-str]'',
      ''[?b :block/uid ?block-uid]'',
      ''[?b :block/page ?p]'']
     @ (if truthy pu then [''[?p :block/uid ?target-page-uid]''] else [])"

definition countAllWhereClauses :: "DatalogClauses \<Rightarrow> string option \<Rightarrow> string list" where
  "countAllWhereClauses clauses pu = countBaseClauses pu @ whereClauses clauses"

definition buildCountQuery :: "DatalogClauses \<Rightarrow> string option \<Rightarrow> string \<times> jsval list" where
  "buildCountQuery clauses pu =
     (let queryText =
            ''[:find (count ?b)'' @ nl @
            indent20 @ inClause clauses pu @ nl @
            indent20 @ '':where'' @ nl @
            indent20 @ join (nl @ indent20) (countAllWhereClauses clauses pu) @ '']''
      in (queryText, buildArgs clauses pu))"

text \<open>
  \<^verbatim>\<open>/^\s*\{\{\[\[query\]\]:/i\<close>.  Under the \<^verbatim>\<open>i\<close> flag a character matches
  a pattern character when both have the same canonical (upper case) form; the pattern
  is ASCII, and no other Latin-1 character has an ASCII canonical form.
\<close>

definition canonicalize :: "char \<Rightarrow> char" where
  "canonicalize c =
     (let n = (of_char c :: nat) in if 97 \<le> n \<and> n \<le> 122 then char_of (n - 32) else c)"

definition queryPrefix :: string where
  "queryPrefix = ''{{[[query]]:''"

lemma length_queryPrefix: "length queryPrefix = 12"
  by (simp add: queryPrefix_def)

definition isQueryBlock :: "string \<Rightarrow> bool" where
  "isQueryBlock text =
     (let r = dropWhile isWhitespace text
      in map canonicalize (take (length queryPrefix) r) = map canonicalize queryPrefix)"

text \<open>\<^verbatim>\<open>text.indexOf(p, start)\<close>; \<open>None\<close> stands for \<open>-1\<close>.\<close>

fun indexFrom :: "string \<Rightarrow> string \<Rightarrow> nat \<Rightarrow> nat option" where
  "indexFrom [] p k = (if p = [] then Some k else None)"
| "indexFrom (c # cs) p k =
     (if take (length p) (c # cs) = p then Some k else indexFrom cs p (Suc k))"

definition indexOf :: "string \<Rightarrow> string \<Rightarrow> nat \<Rightarrow> nat option" where
  "indexOf s p start = indexFrom (drop start s) p start"

text \<open>
  The inner loop of \<^verbatim>\<open>extractQueryBlocks\<close> over the text from \<open>pos\<close> on:
  it returns the final \<open>pos\<close> and \<open>depth\<close>.
\<close>

fun scanBraces :: "string \<Rightarrow> nat \<Rightarrow> nat \<Rightarrow> nat \<times> nat" where
  "scanBraces [] pos depth = (pos, depth)"
| "scanBraces (c # cs) pos depth =
     (if depth > 0 then
        scanBraces cs (pos + 1)
          (if c = CHR ''{'' then depth + 1 else if c = CHR ''}'' then depth - 1 else depth)
      else (pos, depth))"

lemma scanBraces_pos: "scanBraces cs pos depth = (p, d) \<Longrightarrow> pos \<le> p"
  by (induction cs arbitrary: pos depth) (auto split: if_splits dest: Suc_leD)

lemma indexFrom_ge: "indexFrom cs p k = Some i \<Longrightarrow> k \<le> i"
  by (induction cs arbitrary: k) (auto split: if_splits dest: Suc_leD)

function extractLoop :: "string \<Rightarrow> nat \<Rightarrow> string list \<Rightarrow> string list" where
  "extractLoop text startIdx matches =
     (if startIdx < length text then
        (case indexOf text queryPrefix startIdx of
           None \<Rightarrow> matches
         | Some foundIdx \<Rightarrow>
             (case scanBraces (drop (foundIdx + length queryPrefix) text)
                     (foundIdx + length queryPrefix) 2 of
                (pos, depth) \<Rightarrow>
                  extractLoop text pos
                    (if depth = 0 then matches @ [slice text foundIdx pos] else matches)))
      else matches)"
  by pat_completeness auto
termination
proof (relation "measure (\<lambda>(text, startIdx, matches). length text - startIdx)")
  show "wf (measure (\<lambda>(text, startIdx, matches). length text - startIdx))"
    by simp
next
  fix s :: string and startIdx :: nat and matches :: "string list"
    and foundIdx pos depth
  assume lt: "startIdx < length s"
    and found: "indexOf s queryPrefix startIdx = Some foundIdx"
    and scan: "(pos, depth) = scanBraces (drop (foundIdx + length queryPrefix) s)
                     (foundIdx + length queryPrefix) 2"
  from found have "startIdx \<le> foundIdx"
    unfolding indexOf_def by (rule indexFrom_ge)
  moreover from scan have "foundIdx + length queryPrefix \<le> pos"
    using scanBraces_pos [of _ _ 2 pos depth] by metis
  ultimately have "startIdx < pos" by (simp add: length_queryPrefix)
  with lt show "((s, pos, if depth = 0 then matches @ [slice s foundIdx pos] else matches),
                  (s, startIdx, matches))
                \<in> measure (\<lambda>(text, startIdx, matches). length text - startIdx)"
    by simp
qed

declare extractLoop.simps [simp del]

definition extractQueryBlocks :: "string \<Rightarrow> string list" where
  "extractQueryBlocks text = extractLoop text 0 []"

section \<open>Parser (query/parser.ts)\<close>

text \<open>
  The parser object's two fields are passed explicitly: the input and the position.
  A function that can throw returns \<open>Inl\<close> of the error, one that succeeds returns
  its value with the new position.
\<close>

abbreviation sq :: string where
  "sq \<equiv> [CHR 0x27]"

record ParseResult =
  name :: "string option"
  query :: QueryNode

definition skipWhitespace :: "string \<Rightarrow> nat \<Rightarrow> nat" where
  "skipWhitespace inp pos = pos + length (takeWhile isWhitespace (drop pos inp))"

definition expect :: "string \<Rightarrow> nat \<Rightarrow> char \<Rightarrow> error + nat" where
  "expect inp pos ch =
     (if charAt inp pos \<noteq> Some ch then
        Inl (QueryParseError
               (''Expected '' @ sq @ [ch] @ sq @ '' at position '' @ showNat pos @ '', found ''
                  @ sq @ (case charAt inp pos of Some c \<Rightarrow> [c] | None \<Rightarrow> ''EOF'') @ sq)
               pos)
      else Inr (pos + 1))"

definition parseIdentifier :: "string \<Rightarrow> nat \<Rightarrow> string \<times> nat" where
  "parseIdentifier inp pos =
     (let ident = takeWhile isAsciiLetter (drop pos inp) in (ident, pos + length ident))"

definition parseOperatorName :: "string \<Rightarrow> nat \<Rightarrow> string \<times> nat" where
  "parseOperatorName inp pos =
     (let remaining = toLowerCase (drop pos inp)
      in case filter (\<lambda>op. startsWith remaining op) [''created by'', ''edited by'', ''daily notes''] of
           op # _ \<Rightarrow> (op, pos + length op)
         | [] \<Rightarrow> parseIdentifier inp pos)"

text \<open>
  The loop shared by \<^verbatim>\<open>parseQuotedString\<close> and the quoted branch of
  \<^verbatim>\<open>parseSearch\<close>, over the input from \<open>pos\<close> on.
\<close>

fun quotedLoop :: "string \<Rightarrow> nat \<Rightarrow> string \<Rightarrow> string \<times> nat" where
  "quotedLoop (c # d # rest) pos v =
     (if c = CHR 0x22 then (v, pos)
      else if c = CHR 0x5C \<and> d = CHR 0x22 then quotedLoop rest (pos + 2) (v @ dq)
      else quotedLoop (d # rest) (pos + 1) (v @ [c]))"
| "quotedLoop [c] pos v = (if c = CHR 0x22 then (v, pos) else (v @ [c], pos + 1))"
| "quotedLoop [] pos v = (v, pos)"

definition parseQuotedString :: "string \<Rightarrow> nat \<Rightarrow> error + (string \<times> nat)" where
  "parseQuotedString inp pos =
     (case expect inp pos (CHR 0x22) of
        Inl e \<Rightarrow> Inl e
      | Inr p1 \<Rightarrow>
          (case quotedLoop (drop p1 inp) p1 [] of
             (v, p2) \<Rightarrow>
               if charAt inp p2 = Some (CHR 0x22) then Inr (v, p2 + 1)
               else Inl (QueryParseError ''Unclosed quoted string'' p2)))"

text \<open>The loop of \<^verbatim>\<open>parseTag\<close>: it returns the value, the position and the depth.\<close>

fun tagLoop :: "string \<Rightarrow> nat \<Rightarrow> string \<Rightarrow> nat \<Rightarrow> string \<times> nat \<times> nat" where
  "tagLoop (c # d # rest) pos v depth =
     (if depth > 0 then
        (if c = CHR '']'' \<and> d = CHR '']'' then
           (if depth - 1 = 0 then (v, pos + 2, depth - 1)
            else tagLoop rest (pos + 2) (v @ '']]'') (depth - 1))
         else if c = CHR ''['' \<and> d = CHR ''['' then tagLoop rest (pos + 2) (v @ ''[['') (depth + 1)
         else tagLoop (d # rest) (pos + 1) (v @ [c]) depth)
      else (v, pos, depth))"
| "tagLoop [c] pos v depth = (if depth > 0 then (v @ [c], pos + 1, depth) else (v, pos, depth))"
| "tagLoop [] pos v depth = (v, pos, depth)"

definition parseTag :: "string \<Rightarrow> nat \<Rightarrow> error + (string \<times> nat)" where
  "parseTag inp pos =
     (case expect inp pos (CHR ''['') of
        Inl e \<Rightarrow> Inl e
      | Inr p1 \<Rightarrow>
          (case expect inp p1 (CHR ''['') of
             Inl e \<Rightarrow> Inl e
           | Inr p2 \<Rightarrow>
               (case tagLoop (drop p2 inp) p2 [] 1 of
                  (v, p3, depth) \<Rightarrow>
                    if depth \<noteq> 0 then Inl (QueryParseError ''Unclosed tag reference'' p3)
                    else Inr (trim v, p3))))"

fun blockRefLoop :: "string \<Rightarrow> nat \<Rightarrow> string \<Rightarrow> string \<times> nat" where
  "blockRefLoop (c # d # rest) pos uid =
     (if c = CHR '')'' \<and> d = CHR '')'' then (uid, pos + 2)
      else blockRefLoop (d # rest) (pos + 1) (uid @ [c]))"
| "blockRefLoop [c] pos uid = (uid @ [c], pos + 1)"
| "blockRefLoop [] pos uid = (uid, pos)"

definition parseBlockRef :: "string \<Rightarrow> nat \<Rightarrow> error + (string \<times> nat)" where
  "parseBlockRef inp pos =
     (case expect inp pos (CHR ''('') of
        Inl e \<Rightarrow> Inl e
      | Inr p1 \<Rightarrow>
          (case expect inp p1 (CHR ''('') of
             Inl e \<Rightarrow> Inl e
           | Inr p2 \<Rightarrow>
               (case blockRefLoop (drop p2 inp) p2 [] of
                  (uid, p3) \<Rightarrow>
                    if uid = [] then Inl (QueryParseError ''Empty block reference'' p3)
                    else Inr (trim uid, p3))))"

definition readUntilBrace :: "string \<Rightarrow> nat \<Rightarrow> string \<times> nat" where
  "readUntilBrace inp pos =
     (let raw = takeWhile (\<lambda>c. c \<noteq> CHR ''}'') (drop pos inp) in (trim raw, pos + length raw))"

definition parseSearch :: "string \<Rightarrow> nat \<Rightarrow> string \<times> nat" where
  "parseSearch inp pos =
     (let p = skipWhitespace inp pos
      in if charAt inp p = Some (CHR 0x22) then
           (case quotedLoop (drop (p + 1) inp) (p + 1) [] of
              (v, p2) \<Rightarrow> (v, if charAt inp p2 = Some (CHR 0x22) then p2 + 1 else p2))
         else readUntilBrace inp p)"

definition parseUserIdentifier :: "string \<Rightarrow> nat \<Rightarrow> error + (string \<times> nat)" where
  "parseUserIdentifier inp pos =
     (if slice inp pos (pos + 2) = ''[['' then parseTag inp pos
      else Inr (readUntilBrace inp pos))"

definition parseUserClause :: "string \<Rightarrow> nat \<Rightarrow> error + (string \<times> nat)" where
  "parseUserClause inp pos = parseUserIdentifier inp (skipWhitespace inp pos)"

definition parseBetween :: "string \<Rightarrow> nat \<Rightarrow> error + (QueryNode \<times> nat)" where
  "parseBetween inp pos =
     (case parseTag inp (skipWhitespace inp pos) of
        Inl e \<Rightarrow> Inl e
      | Inr (startValue, p1) \<Rightarrow>
          (case parseTag inp (skipWhitespace inp p1) of
             Inl e \<Rightarrow> Inl e
           | Inr (endValue, p2) \<Rightarrow> Inr (BetweenNode startValue endValue, p2)))"

text \<open>The end of \<^verbatim>\<open>parseOperator\<close>: skip white space and expect the closing brace.\<close>

definition closeOperator :: "string \<Rightarrow> error + (QueryNode \<times> nat) \<Rightarrow> error + (QueryNode \<times> nat)" where
  "closeOperator inp r =
     (case r of
        Inl e \<Rightarrow> Inl e
      | Inr (node, p) \<Rightarrow>
          (case expect inp (skipWhitespace inp p) (CHR ''}'') of
             Inl e \<Rightarrow> Inl e
           | Inr p' \<Rightarrow> Inr (node, p')))"

definition withNode :: "(string \<Rightarrow> QueryNode) \<Rightarrow> error + (string \<times> nat) \<Rightarrow> error + (QueryNode \<times> nat)" where
  "withNode mk r = (case r of Inl e \<Rightarrow> Inl e | Inr (v, p) \<Rightarrow> Inr (mk v, p))"

text \<open>
  The head of \<^verbatim>\<open>parseOperator\<close> (brace, operator name, colon) and the cases of
  its \<^verbatim>\<open>switch\<close> that do not recurse.
\<close>

definition parseOperatorHead :: "string \<Rightarrow> nat \<Rightarrow> error + (string \<times> nat)" where
  "parseOperatorHead inp pos =
     (case expect inp pos (CHR ''{'') of
        Inl e \<Rightarrow> Inl e
      | Inr p1 \<Rightarrow>
          (case parseOperatorName inp (skipWhitespace inp p1) of
             (operator, p2) \<Rightarrow>
               (case expect inp (skipWhitespace inp p2) (CHR '':'') of
                  Inl e \<Rightarrow> Inl e
                | Inr p3 \<Rightarrow> Inr (operator, skipWhitespace inp p3))))"

definition parseLeafOperator :: "string \<Rightarrow> string \<Rightarrow> nat \<Rightarrow> error + (QueryNode \<times> nat)" where
  "parseLeafOperator inp operator pos =
     (let opName = toLowerCase operator
      in if opName = ''between'' then parseBetween inp pos
         else if opName = ''search'' then withNode SearchNode (Inr (parseSearch inp pos))
         else if opName = ''daily notes'' then Inr (DailyNotesNode, pos)
         else if opName = ''by'' then withNode ByNode (parseUserClause inp pos)
         else if opName = ''created by'' then withNode CreatedByNode (parseUserClause inp pos)
         else if opName = ''edited by'' then withNode EditedByNode (parseUserClause inp pos)
         else Inl (QueryParseError (''Unknown operator: '' @ operator) pos))"

text \<open>
  The mutually recursive functions take fuel: \<^verbatim>\<open>parseExpression\<close> and each round
  of the loop of \<^verbatim>\<open>parseAndOr\<close> use one unit, and \<open>None\<close> means the fuel ran
  out.
\<close>

function (sequential) parseExpression :: "nat \<Rightarrow> string \<Rightarrow> nat \<Rightarrow> (error + (QueryNode \<times> nat)) option"
  and parseOperator :: "nat \<Rightarrow> string \<Rightarrow> nat \<Rightarrow> (error + (QueryNode \<times> nat)) option"
  and parseAndOr :: "nat \<Rightarrow> string \<Rightarrow> nat \<Rightarrow> string \<Rightarrow> (error + (QueryNode \<times> nat)) option"
  and parseAndOrLoop ::
    "nat \<Rightarrow> string \<Rightarrow> nat \<Rightarrow> QueryNode list \<Rightarrow> (error + (QueryNode list \<times> nat)) option"
  and parseNot :: "nat \<Rightarrow> string \<Rightarrow> nat \<Rightarrow> (error + (QueryNode \<times> nat)) option"
where
  "parseExpression 0 inp pos = None"
| "parseExpression (Suc n) inp pos =
     (let p = skipWhitespace inp pos
      in if charAt inp p = Some (CHR ''{'') then parseOperator n inp p
         else if slice inp p (p + 2) = ''[['' then Some (withNode TagNode (parseTag inp p))
         else if slice inp p (p + 2) = ''(('' then Some (withNode BlockRefNode (parseBlockRef inp p))
         else Some (Inl (QueryParseError
                (''Expected '' @ sq @ ''{'' @ sq @ '', '' @ sq @ ''[['' @ sq @ '', or '' @ sq @ ''((''
                   @ sq @ '' at position '' @ showNat p @ '', found: '' @ dq
                   @ slice inp p (p + 10) @ ''...'' @ dq)
                p)))"
| "parseOperator n inp pos =
     (case parseOperatorHead inp pos of
        Inl e \<Rightarrow> Some (Inl e)
      | Inr (operator, p) \<Rightarrow>
          map_option (closeOperator inp)
            (if toLowerCase operator = ''and'' then parseAndOr n inp p ''and''
             else if toLowerCase operator = ''or'' then parseAndOr n inp p ''or''
             else if toLowerCase operator = ''not'' then parseNot n inp p
             else Some (parseLeafOperator inp operator p)))"
| "parseAndOr n inp pos ty =
     (case parseAndOrLoop n inp (skipWhitespace inp pos) [] of
        None \<Rightarrow> None
      | Some (Inl e) \<Rightarrow> Some (Inl e)
      | Some (Inr (children, p)) \<Rightarrow>
          if length children = 0 then
            Some (Inl (QueryParseError (ty @ '' operator requires at least one child'') p))
          else Some (Inr (if ty = ''and'' then AndNode children else OrNode children, p)))"
| "parseAndOrLoop 0 inp pos children = None"
| "parseAndOrLoop (Suc n) inp pos children =
     (if pos < length inp \<and> charAt inp pos \<noteq> Some (CHR ''}'') then
        (case parseExpression n inp pos of
           None \<Rightarrow> None
         | Some (Inl e) \<Rightarrow> Some (Inl e)
         | Some (Inr (child, p)) \<Rightarrow>
             parseAndOrLoop n inp (skipWhitespace inp p) (children @ [child]))
      else Some (Inr (children, pos)))"
| "parseNot n inp pos =
     (case parseExpression n inp (skipWhitespace inp pos) of
        None \<Rightarrow> None
      | Some (Inl e) \<Rightarrow> Some (Inl e)
      | Some (Inr (child, p)) \<Rightarrow> Some (Inr (NotNode child, p)))"
  by pat_completeness auto
termination
  by (relation "measure (\<lambda>x. case x of
        Inl (Inl (n, inp, pos)) \<Rightarrow> 4 * n + 1
      | Inl (Inr (n, inp, pos)) \<Rightarrow> 4 * n + 3
      | Inr (Inl (n, inp, pos, ty)) \<Rightarrow> 4 * n + 2
      | Inr (Inr (Inl (n, inp, pos, children))) \<Rightarrow> 4 * n
      | Inr (Inr (Inr (n, inp, pos))) \<Rightarrow> 4 * n + 2)") auto

declare parseOperator.simps [simp del] parseAndOr.simps [simp del] parseNot.simps [simp del]

text \<open>
  \<^verbatim>\<open>/^\{\{\[\[query\]\]:\s*(.+)\}\}$/s\<close> on the trimmed input: the group is what
  stands between the prefix and the final two braces, less its leading white space
  (it keeps one character when that part is white space only); the caller trims it.
\<close>

definition extractQueryExpression :: "string \<Rightarrow> string" where
  "extractQueryExpression inp =
     (let trimmed = trim inp
      in if startsWith trimmed queryPrefix \<and> endsWith trimmed ''}}''
            \<and> length queryPrefix + 1 + 2 \<le> length trimmed
         then trim (slice trimmed (length queryPrefix) (length trimmed - 2))
         else trimmed)"

definition parseQueryWithName :: "string \<Rightarrow> (error + ParseResult) option" where
  "parseQueryWithName input0 =
     (let inp = extractQueryExpression input0;
          p0 = skipWhitespace inp 0;
          named = (if charAt inp p0 = Some (CHR 0x22) then
                     (case parseQuotedString inp p0 of
                        Inl e \<Rightarrow> Inl e
                      | Inr (v, p) \<Rightarrow> Inr (Some v, skipWhitespace inp p))
                   else Inr (None, p0))
      in case named of
           Inl e \<Rightarrow> Some (Inl e)
         | Inr (nm, p1) \<Rightarrow>
             (case parseExpression (2 * length inp + 1) inp p1 of
                None \<Rightarrow> None
              | Some (Inl e) \<Rightarrow> Some (Inl e)
              | Some (Inr (q, p2)) \<Rightarrow>
                  (let p3 = skipWhitespace inp p2
                   in if p3 < length inp then
                        Some (Inl (QueryParseError
                                (''Unexpected content after query: '' @ dq @ drop p3 inp @ dq) p3))
                      else Some (Inr \<lparr> name = nm, query = q \<rparr>))))"

text \<open>\<^verbatim>\<open>QueryParser.parse\<close>\<close>

definition parse :: "string \<Rightarrow> (error + QueryNode) option" where
  "parse input0 =
     (case parseQueryWithName input0 of
        None \<Rightarrow> None
      | Some (Inl e) \<Rightarrow> Some (Inl e)
      | Some (Inr r) \<Rightarrow> Some (Inr (query r)))"

section \<open>Executor (query/index.ts, QueryExecutor.execute)\<close>

text \<open>
  The two external capabilities: \<^verbatim>\<open>q\<close> runs a query text with arguments and gives
  rows of values, \<^verbatim>\<open>resolveRefs\<close> resolves the references in a content value.
  Either may fail (a rejected promise).  The rows are awaited in their order.
\<close>

record capabilities =
  q :: "string \<Rightarrow> jsval list \<Rightarrow> error + jsval list list"
  resolveRefs :: "jsval \<Rightarrow> error + jsval"

record Match =
  block_uid :: jsval
  content :: jsval
  page_title :: jsval

record QueryResult =
  success :: bool
  matches :: "Match list"
  message :: string
  total_count :: "jsval option"
  query_text :: "string option"

text \<open>\<^verbatim>\<open>row[i]\<close> of a destructured row.\<close>

definition element :: "jsval list \<Rightarrow> nat \<Rightarrow> jsval" where
  "element row i = (if i < length row then row ! i else JUndefined)"

fun resolveRows :: "capabilities \<Rightarrow> jsval list list \<Rightarrow> error + Match list" where
  "resolveRows caps [] = Inr []"
| "resolveRows caps (row # rows) =
     (case resolveRefs caps (element row 1) of
        Inl e \<Rightarrow> Inl e
      | Inr resolvedContent \<Rightarrow>
          (case resolveRows caps rows of
             Inl e \<Rightarrow> Inl e
           | Inr ms \<Rightarrow>
               Inr (\<lparr> block_uid = element row 0, content = resolvedContent,
                       page_title = element row 2 \<rparr> # ms)))"

text \<open>\<^verbatim>\<open>countResults[0]?.[0] ?? 0\<close>\<close>

definition firstCount :: "jsval list list \<Rightarrow> jsval" where
  "firstCount countResults =
     (case countResults of
        [] \<Rightarrow> JNumber (Num 0)
      | row # _ \<Rightarrow> (if element row 0 = JUndefined then JNumber (Num 0) else element row 0))"

text \<open>The body of the \<^verbatim>\<open>try\<close> block, after parsing.\<close>

definition executeQuery ::
  "clock \<Rightarrow> capabilities \<Rightarrow> QueryNode \<Rightarrow> QueryOptions \<Rightarrow> error + QueryResult" where
  "executeQuery clk caps ast options =
     (case generate clk ast of
        Inl e \<Rightarrow> Inl e
      | Inr clauses \<Rightarrow>
          (case buildDatalogQuery clauses
                  \<lparr> limit = limit options, offset = offset options,
                    orderBy = (if truthy (orderBy options) then orderBy options
                               else Some ''?block-uid asc''),
                    pageUid = pageUid options, select = None \<rparr> of
             (queryText, args) \<Rightarrow>
               (case q caps queryText args of
                  Inl e \<Rightarrow> Inl e
                | Inr rawResults \<Rightarrow>
                    (case resolveRows caps rawResults of
                       Inl e \<Rightarrow> Inl e
                     | Inr resolvedResults \<Rightarrow>
                         (case (if limit options \<noteq> None \<and> limit options \<noteq> Some (- 1) then
                                  (case buildCountQuery clauses (pageUid options) of
                                     (countText, countArgs) \<Rightarrow>
                                       (case q caps countText countArgs of
                                          Inl e \<Rightarrow> Inl e
                                        | Inr countResults \<Rightarrow> Inr (firstCount countResults)))
                                else Inr (JNumber (Num (int (length resolvedResults))))) of
                            Inl e \<Rightarrow> Inl e
                          | Inr totalCount \<Rightarrow>
                              Inr \<lparr> success = True, matches = resolvedResults,
                                    message = ''Found '' @ showNat (length resolvedResults)
                                                @ '' block(s) matching query'',
                                    total_count = Some totalCount,
                                    query_text = Some queryText \<rparr>)))))"

text \<open>
  The \<^verbatim>\<open>catch\<close> block.  The message is computed first; when that throws, the
  \<^verbatim>\<open>catch\<close> block throws (\<open>Inl\<close>) and no result is returned.
\<close>

definition failure :: "error \<Rightarrow> error + QueryResult" where
  "failure e =
     (case errorMessage e of
        Inl thrown \<Rightarrow> Inl thrown
      | Inr msg \<Rightarrow>
          Inr \<lparr> success = False, matches = [], message = msg,
                total_count = None, query_text = None \<rparr>)"

text \<open>
  \<^verbatim>\<open>execute\<close>: the \<^verbatim>\<open>try\<close> block and its \<^verbatim>\<open>catch\<close>.  \<open>None\<close> would
  mean that the parser did not return; \<open>Some (Inl thrown)\<close> is a rejected promise,
  \<open>Some (Inr r)\<close> the result \<open>r\<close>.
\<close>

definition execute ::
  "clock \<Rightarrow> capabilities \<Rightarrow> string \<Rightarrow> QueryOptions \<Rightarrow> (error + QueryResult) option" where
  "execute clk caps queryBlock options =
     (case parse queryBlock of
        None \<Rightarrow> None
      | Some (Inl e) \<Rightarrow> Some (failure e)
      | Some (Inr ast) \<Rightarrow>
          (case executeQuery clk caps ast options of
             Inl e \<Rightarrow> Some (failure e)
           | Inr r \<Rightarrow> Some (Inr r)))"

section \<open>Notions the properties are stated with\<close>

text \<open>
  The clause sets of a list of children, generated in order with the counters threaded
  from one child to the next.
\<close>

fun generateEach ::
  "clock \<Rightarrow> QueryNode list \<Rightarrow> string \<Rightarrow> gen_state \<Rightarrow> error + (DatalogClauses list \<times> gen_state)" where
  "generateEach clk [] blockVar st = Inr ([], st)"
| "generateEach clk (child # rest) blockVar st =
     (case generateNode clk child blockVar st of
        Inl e \<Rightarrow> Inl e
      | Inr (r, st') \<Rightarrow>
          (case generateEach clk rest blockVar st' of
             Inl e \<Rightarrow> Inl e
           | Inr (rs, st'') \<Rightarrow> Inr (r # rs, st'')))"

text \<open>The number of tag and block-reference nodes of an AST.\<close>

fun refNodes :: "QueryNode \<Rightarrow> nat" where
  "refNodes (AndNode children) = sum_list (map refNodes children)"
| "refNodes (OrNode children) = sum_list (map refNodes children)"
| "refNodes (NotNode child) = refNodes child"
| "refNodes (TagNode v) = 1"
| "refNodes (BlockRefNode uid) = 1"
| "refNodes node = 0"

text \<open>
  What \<^verbatim>\<open>extractQueryBlocks\<close> is to find, said without its loops.  The prefix
  occurs at \<open>i\<close>; \<open>i\<close> is its first occurrence from \<open>start\<close> on; the depth
  after the text from \<open>a\<close> up to \<open>k\<close>, counted from 2; \<open>e\<close> is the first
  position where that depth is zero.  The blocks from \<open>start\<close> on: none when the prefix
  does not occur or its first occurrence never closes, otherwise the text from the
  first occurrence to where it closes, followed by the blocks from there on.
\<close>

definition occursAt :: "string \<Rightarrow> nat \<Rightarrow> bool" where
  "occursAt s i \<longleftrightarrow> take (length queryPrefix) (drop i s) = queryPrefix"

definition firstOccurrence :: "string \<Rightarrow> nat \<Rightarrow> nat \<Rightarrow> bool" where
  "firstOccurrence s start i \<longleftrightarrow>
     start \<le> i \<and> occursAt s i \<and> (\<forall>j. start \<le> j \<and> j < i \<longrightarrow> \<not> occursAt s j)"

fun braceBalance :: "string \<Rightarrow> int" where
  "braceBalance [] = 0"
| "braceBalance (c # cs) =
     (if c = CHR ''{'' then 1 else if c = CHR ''}'' then - 1 else 0) + braceBalance cs"

definition depthAt :: "string \<Rightarrow> nat \<Rightarrow> nat \<Rightarrow> int" where
  "depthAt s a k = 2 + braceBalance (slice s a k)"

definition firstClose :: "string \<Rightarrow> nat \<Rightarrow> nat \<Rightarrow> bool" where
  "firstClose s a e \<longleftrightarrow>
     a \<le> e \<and> e \<le> length s \<and> depthAt s a e = 0
       \<and> (\<forall>k. a \<le> k \<and> k < e \<longrightarrow> 0 < depthAt s a k)"

inductive blocksFrom :: "string \<Rightarrow> nat \<Rightarrow> string list \<Rightarrow> bool" where
  no_occurrence:
    "(\<forall>i. start \<le> i \<longrightarrow> \<not> occursAt s i) \<Longrightarrow> blocksFrom s start []"
| unclosed:
    "firstOccurrence s start i \<Longrightarrow> (\<forall>e. \<not> firstClose s (i + length queryPrefix) e)
       \<Longrightarrow> blocksFrom s start []"
| block:
    "firstOccurrence s start i \<Longrightarrow> firstClose s (i + length queryPrefix) e
       \<Longrightarrow> blocksFrom s e rest \<Longrightarrow> blocksFrom s start (slice s i e # rest)"

text \<open>
  A clock as a runtime gives it: the calendar fields of a date, a year in the range of
  time values, and a local time zone adjustment of at most a day.
\<close>

definition clockOk :: "clock \<Rightarrow> bool" where
  "clockOk clk \<longleftrightarrow>
     0 \<le> nowMonth clk \<and> nowMonth clk \<le> 11 \<and> 1 \<le> nowDate clk \<and> nowDate clk \<le> 31
       \<and> - 271000 \<le> nowFullYear clk \<and> nowFullYear clk \<le> 275000
       \<and> (\<forall>t. \<bar>localTZA clk t\<bar> \<le> msPerDay)"

text \<open>A clock for the examples: 31 January 2026, a Saturday, in UTC.\<close>

definition exampleClock :: clock where
  "exampleClock =
     \<lparr> nowFullYear = 2026, nowMonth = 0, nowDate = 31, nowDay = 6,
       localTZA = (\<lambda>t. 0), dateParse = (\<lambda>s. NaN) \<rparr>"

section \<open>Properties of the generator\<close>

lemma generateOr_each:
  "generateOr clk children blockVar (ins, vals, branches) st =
     (case generateEach clk children blockVar st of
        Inl e \<Rightarrow> Inl e
      | Inr (cs, st') \<Rightarrow>
          Inr ((ins @ concat (map inputs cs), vals @ concat (map inputValues cs),
                branches @ map (\<lambda>c. wrapClauses (whereClauses c)) cs), st'))"
  by (induction children arbitrary: ins vals branches st)
     (auto split: sum.splits prod.splits)

lemma generateAnd_each:
  "generateAnd clk children blockVar acc st =
     (case generateEach clk children blockVar st of
        Inl e \<Rightarrow> Inl e
      | Inr (cs, st') \<Rightarrow>
          Inr (\<lparr> whereClauses = whereClauses acc @ concat (map whereClauses cs),
                 inputs = inputs acc @ concat (map inputs cs),
                 inputValues = inputValues acc @ concat (map inputValues cs) \<rparr>, st'))"
  by (induction children arbitrary: acc st)
     (auto split: sum.splits prod.splits)

lemma generateEach_append:
  "generateEach clk (xs @ ys) blockVar st =
     (case generateEach clk xs blockVar st of
        Inl e \<Rightarrow> Inl e
      | Inr (rs, st1) \<Rightarrow>
          (case generateEach clk ys blockVar st1 of
             Inl e \<Rightarrow> Inl e
           | Inr (rs', st2) \<Rightarrow> Inr (rs @ rs', st2)))"
  by (induction xs arbitrary: st) (auto split: sum.splits prod.splits)

lemma generateBetween_refCounter:
  "generateBetween clk s e blockVar st = Inr (r, st') \<Longrightarrow> refCounter st' = refCounter st"
  by (auto simp: generateBetween_def Let_def split: sum.splits)

lemma generateTag_refCounter:
  "refCounter (snd (generateTag v blockVar st)) = refCounter st + 1"
  by (simp add: generateTag_def Let_def)

lemma generateBlockRef_refCounter:
  "refCounter (snd (generateBlockRef v blockVar st)) = refCounter st + 1"
  by (simp add: generateBlockRef_def Let_def)

lemma refCounter_law:
  "generateNode clk node blockVar st = Inr (r, st') \<Longrightarrow>
     refCounter st' = refCounter st + refNodes node"
  "generateAnd clk children blockVar acc st = Inr (r, st') \<Longrightarrow>
     refCounter st' = refCounter st + sum_list (map refNodes children)"
  "generateOr clk children blockVar acc3 st = Inr (r3, st') \<Longrightarrow>
     refCounter st' = refCounter st + sum_list (map refNodes children)"
proof (induction clk node blockVar st and clk children blockVar acc st
         and clk children blockVar acc3 st
       arbitrary: r st' and r st' and r3 st'
       rule: generateNode_generateAnd_generateOr.induct)
  case (1 clk children blockVar st)
  then show ?case by simp
next
  case (2 clk children blockVar st)
  then show ?case by (simp split: sum.splits prod.splits)
next
  case (3 clk child blockVar st)
  then show ?case by (simp split: sum.splits prod.splits)
next
  case (4 clk startDate endDate blockVar st)
  then show ?case by (simp add: generateBetween_refCounter)
next
  case (5 clk v blockVar st)
  then show ?case using generateTag_refCounter [of v blockVar st] by auto
next
  case (6 clk uid blockVar st)
  then show ?case using generateBlockRef_refCounter [of uid blockVar st] by auto
next
  case (13 clk child rest blockVar acc st)
  from "13.prems" obtain cc st1 where g: "generateNode clk child blockVar st = Inr (cc, st1)"
    and rest: "generateAnd clk rest blockVar
           \<lparr>whereClauses = whereClauses acc @ whereClauses cc,
              inputs = inputs acc @ inputs cc,
              inputValues = inputValues acc @ inputValues cc\<rparr> st1 = Inr (r, st')"
    by (simp split: sum.splits prod.splits)
  from "13.IH"(1) [OF g] "13.IH"(2) [OF g refl rest] show ?case by simp
next
  case (15 clk child rest blockVar ins vals orBranches st)
  from "15.prems" obtain cc st1 where g: "generateNode clk child blockVar st = Inr (cc, st1)"
    and rest: "generateOr clk rest blockVar
           (ins @ inputs cc, vals @ inputValues cc,
            orBranches @ [wrapClauses (whereClauses cc)]) st1 = Inr (r3, st')"
    by (simp split: sum.splits prod.splits)
  from "15.IH"(1) [OF g] "15.IH"(2) [OF g refl rest] show ?case by simp
qed simp_all

lemma generateEach_refCounter:
  "generateEach clk children blockVar st = Inr (rs, st') \<Longrightarrow>
     refCounter st' = refCounter st + sum_list (map refNodes children)"
proof (induction children arbitrary: st rs)
  case Nil
  then show ?case by simp
next
  case (Cons child rest)
  from Cons.prems obtain r st1 rs1 where g: "generateNode clk child blockVar st = Inr (r, st1)"
    and e: "generateEach clk rest blockVar st1 = Inr (rs1, st')"
    by (auto split: sum.splits prod.splits)
  from refCounter_law(1) [OF g] Cons.IH [OF e] show ?case by simp
qed

text \<open>
  C3.  An or node yields exactly one fragment: the branches of its children, in order,
  inside one \<^verbatim>\<open>or-join\<close> that binds the subject variable again.  A child with one
  fragment gives it verbatim, any other child gives its fragments inside
  \<^verbatim>\<open>(and ...)\<close>.  The inputs and the input values are those of the children,
  concatenated in order; an error of a child is the error of the node.
\<close>

theorem generateOr_single_fragment:
  "generateNode clk (OrNode children) blockVar st =
     (case generateEach clk children blockVar st of
        Inl e \<Rightarrow> Inl e
      | Inr (cs, st') \<Rightarrow>
          Inr (\<lparr> whereClauses =
                   [''(or-join ['' @ blockVar @ ''] ''
                      @ join '' ''
                          (map (\<lambda>c. case whereClauses c of
                                       [fragment] \<Rightarrow> fragment
                                     | fragments \<Rightarrow> ''(and '' @ join '' '' fragments @ '')'') cs)
                      @ '')''],
                 inputs = concat (map inputs cs),
                 inputValues = concat (map inputValues cs) \<rparr>, st'))"
proof -
  have wrap: "wrapClauses w = (case w of [fragment] \<Rightarrow> fragment
                 | fragments \<Rightarrow> ''(and '' @ join '' '' fragments @ '')'')" for w
    by (auto simp: wrapClauses_def split: list.splits)
  show ?thesis
    by (simp add: generateOr_each wrap split: sum.splits prod.splits)
qed

text \<open>
  C4, as the code has it.  A block-reference node takes its index from the reference
  counter that tag nodes use too, under its own prefix \<^verbatim>\<open>?block-ref-\<close>; it emits
  the two fragments of a tag, binding by \<^verbatim>\<open>:block/uid\<close>, and advances the counter
  by one.  Every node advances the counter by the number of its tag and block-reference
  nodes, so a block-reference node that follows the children \<open>pre\<close> of an and node is
  bound with the start value plus the number of tag and block-reference nodes of \<open>pre\<close>.
\<close>

theorem generateBlockRef_shared_counter:
  "generateNode clk (BlockRefNode uid) blockVar st =
     Inr (\<lparr> whereClauses =
              [''[?block-ref-'' @ showNat (refCounter st) @ '' :block/uid '' @ dq
                 @ escapeString uid @ dq @ '']'',
               ''['' @ blockVar @ '' :block/refs ?block-ref-'' @ showNat (refCounter st) @ '']''],
            inputs = [], inputValues = [] \<rparr>,
          st\<lparr>refCounter := refCounter st + 1\<rparr>)
   \<and> (generateNode clk node blockVar st = Inr (r, st') \<longrightarrow>
        refCounter st' = refCounter st + refNodes node)
   \<and> (generateEach clk pre blockVar st = Inr (rs, st1) \<longrightarrow>
        generateNode clk (AndNode (pre @ [BlockRefNode uid])) blockVar st =
          Inr (\<lparr> whereClauses = concat (map whereClauses rs) @
                   [''[?block-ref-'' @ showNat (refCounter st + sum_list (map refNodes pre))
                      @ '' :block/uid '' @ dq @ escapeString uid @ dq @ '']'',
                    ''['' @ blockVar @ '' :block/refs ?block-ref-''
                      @ showNat (refCounter st + sum_list (map refNodes pre)) @ '']''],
                 inputs = concat (map inputs rs),
                 inputValues = concat (map inputValues rs) \<rparr>,
               st1\<lparr>refCounter := refCounter st1 + 1\<rparr>))"
proof (intro conjI impI)
  show "generateNode clk (BlockRefNode uid) blockVar st =
     Inr (\<lparr> whereClauses =
              [''[?block-ref-'' @ showNat (refCounter st) @ '' :block/uid '' @ dq
                 @ escapeString uid @ dq @ '']'',
               ''['' @ blockVar @ '' :block/refs ?block-ref-'' @ showNat (refCounter st) @ '']''],
            inputs = [], inputValues = [] \<rparr>,
          st\<lparr>refCounter := refCounter st + 1\<rparr>)"
    by (simp add: generateBlockRef_def Let_def)
next
  assume "generateNode clk node blockVar st = Inr (r, st')"
  then show "refCounter st' = refCounter st + refNodes node"
    by (rule refCounter_law(1))
next
  assume pre: "generateEach clk pre blockVar st = Inr (rs, st1)"
  from generateEach_refCounter [OF pre]
  have cnt: "refCounter st1 = refCounter st + sum_list (map refNodes pre)" .
  show "generateNode clk (AndNode (pre @ [BlockRefNode uid])) blockVar st =
          Inr (\<lparr> whereClauses = concat (map whereClauses rs) @
                   [''[?block-ref-'' @ showNat (refCounter st + sum_list (map refNodes pre))
                      @ '' :block/uid '' @ dq @ escapeString uid @ dq @ '']'',
                    ''['' @ blockVar @ '' :block/refs ?block-ref-''
                      @ showNat (refCounter st + sum_list (map refNodes pre)) @ '']''],
                 inputs = concat (map inputs rs),
                 inputValues = concat (map inputValues rs) \<rparr>,
               st1\<lparr>refCounter := refCounter st1 + 1\<rparr>)"
    by (simp add: generateAnd_each generateEach_append pre generateBlockRef_def Let_def
          emptyClauses_def cnt)
qed

theorem generateBlockRef_shared_counter_witness:
  "generateEach exampleClock [TagNode ''a''] ''?b'' \<lparr>refCounter = 0, inputCounter = 0\<rparr> =
     Inr ([\<lparr> whereClauses = [''[?ref-0 :node/title '' @ dq @ ''a'' @ dq @ '']'',
                              ''[?b :block/refs ?ref-0]''],
              inputs = [], inputValues = [] \<rparr>], \<lparr>refCounter = 1, inputCounter = 0\<rparr>)
   \<and> generateNode exampleClock (AndNode ([TagNode ''a''] @ [BlockRefNode ''u''])) ''?b''
        \<lparr>refCounter = 0, inputCounter = 0\<rparr> =
       Inr (\<lparr> whereClauses =
                [''[?ref-0 :node/title '' @ dq @ ''a'' @ dq @ '']'', ''[?b :block/refs ?ref-0]'',
                 ''[?block-ref-1 :block/uid '' @ dq @ ''u'' @ dq @ '']'',
                 ''[?b :block/refs ?block-ref-1]''],
              inputs = [], inputValues = [] \<rparr>, \<lparr>refCounter = 2, inputCounter = 0\<rparr>)"
proof -
  have pre: "generateEach exampleClock [TagNode ''a''] ''?b'' \<lparr>refCounter = 0, inputCounter = 0\<rparr> =
     Inr ([\<lparr> whereClauses = [''[?ref-0 :node/title '' @ dq @ ''a'' @ dq @ '']'',
                              ''[?b :block/refs ?ref-0]''],
              inputs = [], inputValues = [] \<rparr>], \<lparr>refCounter = 1, inputCounter = 0\<rparr>)"
    by code_simp
  have sn: "showNat (Suc 0) = ''1''"
    by code_simp
  have esc: "escapeString ''u'' = ''u''"
    by code_simp
  note m = generateBlockRef_shared_counter
         [of exampleClock "''u''" "''?b''" "\<lparr>refCounter = 0, inputCounter = 0\<rparr>",
          THEN conjunct2, THEN conjunct2, rule_format, OF pre]
  have m': "generateNode exampleClock (AndNode ([TagNode ''a''] @ [BlockRefNode ''u''])) ''?b''
        \<lparr>refCounter = 0, inputCounter = 0\<rparr> =
       Inr (\<lparr> whereClauses =
                [''[?ref-0 :node/title '' @ dq @ ''a'' @ dq @ '']'', ''[?b :block/refs ?ref-0]'',
                 ''[?block-ref-1 :block/uid '' @ dq @ ''u'' @ dq @ '']'',
                 ''[?b :block/refs ?block-ref-1]''],
              inputs = [], inputValues = [] \<rparr>, \<lparr>refCounter = 2, inputCounter = 0\<rparr>)"
    unfolding m by (simp add: sn esc)
  show ?thesis
    by (rule conjI [OF pre m'])
qed

text \<open>
  The first block-reference node after one tag node is bound with index 1, not 0.
\<close>

theorem generateBlockRef_index_counterexample:
  "generate exampleClock (AndNode [TagNode ''a'', BlockRefNode ''u'']) =
     Inr \<lparr> whereClauses =
             [''[?ref-0 :node/title '' @ dq @ ''a'' @ dq @ '']'', ''[?b :block/refs ?ref-0]'',
              ''[?block-ref-1 :block/uid '' @ dq @ ''u'' @ dq @ '']'',
              ''[?b :block/refs ?block-ref-1]''],
           inputs = [], inputValues = [] \<rparr>"
  by code_simp

text \<open>
  C10.  The clause set of a search node is the same for any two subject variables: its
  one fragment constrains \<^verbatim>\<open>?block-str\<close>, which the first base fragment of the
  query builder binds to the text of the subject.
\<close>

theorem generateSearch_subject_independent:
  "generateNode clk (SearchNode t) blockVar1 st = generateNode clk (SearchNode t) blockVar2 st
   \<and> generateNode clk (SearchNode t) blockVar1 st =
       Inr (\<lparr> whereClauses =
                [''[(clojure.string/includes? ?block-str '' @ dq @ escapeString t @ dq @ '')]''],
              inputs = [], inputValues = [] \<rparr>, st)
   \<and> hd (allWhereClauses clauses pu) = ''[?b :block/string ?block-str]''"
  by (simp add: generateSearch_def allWhereClauses_def baseClauses_def)

section \<open>Properties of the query builder\<close>

lemma modifiers_no_limit:
  assumes "limit options = None \<or> limit options = Some (- 1)"
  shows "list_all (\<lambda>m. \<not> startsWith m '':limit'') (modifiers options)"
  using assms by (auto simp: modifiers_def startsWith_def Let_def)

lemma modifiers_limit:
  assumes "limit options = Some l" "l \<noteq> - 1"
  shows "\<exists>ms. modifiers options = ('':limit '' @ showInt l) # ms
           \<and> list_all (\<lambda>m. \<not> startsWith m '':limit'') ms"
  using assms by (auto simp: modifiers_def startsWith_def Let_def)

lemma generate_Project_TODO:
  "generate clk (AndNode [TagNode ''Project'', TagNode ''TODO'']) =
     Inr \<lparr> whereClauses =
             [''[?ref-0 :node/title '' @ dq @ ''Project'' @ dq @ '']'', ''[?b :block/refs ?ref-0]'',
              ''[?ref-1 :node/title '' @ dq @ ''TODO'' @ dq @ '']'', ''[?b :block/refs ?ref-1]''],
           inputs = [], inputValues = [] \<rparr>"
proof -
  have sn: "showNat 0 = ''0''" "showNat (Suc 0) = ''1''" by code_simp+
  have esc: "escapeString ''Project'' = ''Project''" "escapeString ''TODO'' = ''TODO''"
    by code_simp+
  show ?thesis
    by (simp add: generate_def generateTag_def Let_def emptyClauses_def sn esc)
qed

lemma Project_TODO_limit_50:
  fixes cs :: DatalogClauses and opts :: BuildOptions
  defines "cs \<equiv> \<lparr> whereClauses =
             [''[?ref-0 :node/title '' @ dq @ ''Project'' @ dq @ '']'', ''[?b :block/refs ?ref-0]'',
              ''[?ref-1 :node/title '' @ dq @ ''TODO'' @ dq @ '']'', ''[?b :block/refs ?ref-1]''],
           inputs = [], inputValues = [] \<rparr>"
    and "opts \<equiv> \<lparr> limit = Some 50, offset = None, orderBy = None, pageUid = None,
                  select = None \<rparr>"
  shows "strIncludes (fst (buildDatalogQuery cs opts)) '':find''"
    and "strIncludes (fst (buildDatalogQuery cs opts)) '':where''"
    and "strIncludes (fst (buildDatalogQuery cs opts)) '':limit 50''"
    and "snd (buildDatalogQuery cs opts) = []"
  unfolding cs_def opts_def by code_simp+

text \<open>
  C5, as the code has it.  The where-section of the built text lists the four base
  fragments (text, identifier, containing page, page title), then, when a non-empty
  page-scope identifier is given, the fragment that constrains the page to it, then the
  generated fragments.  With a non-empty identifier the in-clause gets one more input
  variable and the arguments one more value, the identifier; an absent or empty one adds
  nothing.  No limit modifier is written for an absent limit or a limit of -1, and one
  is written first otherwise.  For \<^verbatim>\<open>{and: [[Project]] [[TODO]]}\<close> with limit 50 the
  text has a projection clause, a where-section and \<^verbatim>\<open>:limit 50\<close>, and no
  arguments.
\<close>

theorem buildDatalogQuery_shape:
  "allWhereClauses clauses (pageUid options) =
     [''[?b :block/string ?block-str]'', ''[?b :block/uid ?block-uid]'',
      ''[?b :block/page ?p]'', ''[?p :node/title ?page-title]'']
     @ (case pageUid options of
          None \<Rightarrow> []
        | Some u \<Rightarrow> if u = [] then [] else [''[?p :block/uid ?target-page-uid]''])
     @ whereClauses clauses
   \<and> fst (buildDatalogQuery clauses options) =
       ''[:find ''
         @ join '' '' (case select options of
                         None \<Rightarrow> [''?block-uid'', ''?block-str'', ''?page-title'']
                       | Some xs \<Rightarrow> xs) @ nl
         @ indent18 @ inClause clauses (pageUid options) @ '' ''
         @ join '' '' (modifiers options) @ nl
         @ indent18 @ '':where'' @ nl
         @ indent18 @ join (nl @ indent18) (allWhereClauses clauses (pageUid options)) @ '']''
   \<and> inClause clauses (pageUid options) =
       '':in $''
         @ (if inputs clauses = [] then [] else '' '' @ join '' '' (inputs clauses))
         @ (case pageUid options of
              None \<Rightarrow> []
            | Some u \<Rightarrow> if u = [] then [] else '' ?target-page-uid'')
   \<and> snd (buildDatalogQuery clauses options) =
       inputValues clauses
         @ (case pageUid options of
              None \<Rightarrow> []
            | Some u \<Rightarrow> if u = [] then [] else [JString u])
   \<and> (limit options = None \<or> limit options = Some (- 1) \<longrightarrow>
        list_all (\<lambda>m. \<not> startsWith m '':limit'') (modifiers options))
   \<and> (\<forall>l. limit options = Some l \<and> l \<noteq> - 1 \<longrightarrow>
        (\<exists>ms. modifiers options = ('':limit '' @ showInt l) # ms
           \<and> list_all (\<lambda>m. \<not> startsWith m '':limit'') ms))
   \<and> (\<exists>cs. generate clk (AndNode [TagNode ''Project'', TagNode ''TODO'']) = Inr cs
        \<and> strIncludes (fst (buildDatalogQuery cs
              \<lparr> limit = Some 50, offset = None, orderBy = None, pageUid = None,
                select = None \<rparr>)) '':find''
        \<and> strIncludes (fst (buildDatalogQuery cs
              \<lparr> limit = Some 50, offset = None, orderBy = None, pageUid = None,
                select = None \<rparr>)) '':where''
        \<and> strIncludes (fst (buildDatalogQuery cs
              \<lparr> limit = Some 50, offset = None, orderBy = None, pageUid = None,
                select = None \<rparr>)) '':limit 50''
        \<and> snd (buildDatalogQuery cs
              \<lparr> limit = Some 50, offset = None, orderBy = None, pageUid = None,
                select = None \<rparr>) = [])"
proof (intro conjI)
  show "allWhereClauses clauses (pageUid options) =
     [''[?b :block/string ?block-str]'', ''[?b :block/uid ?block-uid]'',
      ''[?b :block/page ?p]'', ''[?p :node/title ?page-title]'']
     @ (case pageUid options of
          None \<Rightarrow> []
        | Some u \<Rightarrow> if u = [] then [] else [''[?p :block/uid ?target-page-uid]''])
     @ whereClauses clauses"
    by (simp add: allWhereClauses_def baseClauses_def truthy_def split: option.splits)
next
  show "fst (buildDatalogQuery clauses options) =
       ''[:find ''
         @ join '' '' (case select options of
                         None \<Rightarrow> [''?block-uid'', ''?block-str'', ''?page-title'']
                       | Some xs \<Rightarrow> xs) @ nl
         @ indent18 @ inClause clauses (pageUid options) @ '' ''
         @ join '' '' (modifiers options) @ nl
         @ indent18 @ '':where'' @ nl
         @ indent18 @ join (nl @ indent18) (allWhereClauses clauses (pageUid options)) @ '']''"
    by (simp add: buildDatalogQuery_def Let_def)
next
  show "inClause clauses (pageUid options) =
       '':in $''
         @ (if inputs clauses = [] then [] else '' '' @ join '' '' (inputs clauses))
         @ (case pageUid options of
              None \<Rightarrow> []
            | Some u \<Rightarrow> if u = [] then [] else '' ?target-page-uid'')"
    by (simp add: inClause_def truthy_def split: option.splits)
next
  show "snd (buildDatalogQuery clauses options) =
       inputValues clauses
         @ (case pageUid options of
              None \<Rightarrow> []
            | Some u \<Rightarrow> if u = [] then [] else [JString u])"
    by (simp add: buildDatalogQuery_def buildArgs_def Let_def truthy_def split: option.splits)
next
  show "limit options = None \<or> limit options = Some (- 1) \<longrightarrow>
        list_all (\<lambda>m. \<not> startsWith m '':limit'') (modifiers options)"
    using modifiers_no_limit by blast
next
  show "\<forall>l. limit options = Some l \<and> l \<noteq> - 1 \<longrightarrow>
        (\<exists>ms. modifiers options = ('':limit '' @ showInt l) # ms
           \<and> list_all (\<lambda>m. \<not> startsWith m '':limit'') ms)"
    using modifiers_limit by blast
next
  show "\<exists>cs. generate clk (AndNode [TagNode ''Project'', TagNode ''TODO'']) = Inr cs
        \<and> strIncludes (fst (buildDatalogQuery cs
              \<lparr> limit = Some 50, offset = None, orderBy = None, pageUid = None,
                select = None \<rparr>)) '':find''
        \<and> strIncludes (fst (buildDatalogQuery cs
              \<lparr> limit = Some 50, offset = None, orderBy = None, pageUid = None,
                select = None \<rparr>)) '':where''
        \<and> strIncludes (fst (buildDatalogQuery cs
              \<lparr> limit = Some 50, offset = None, orderBy = None, pageUid = None,
                select = None \<rparr>)) '':limit 50''
        \<and> snd (buildDatalogQuery cs
              \<lparr> limit = Some 50, offset = None, orderBy = None, pageUid = None,
                select = None \<rparr>) = []"
    using generate_Project_TODO [of clk] Project_TODO_limit_50 by blast
qed

theorem buildDatalogQuery_shape_witness:
  "snd (buildDatalogQuery emptyClauses
          \<lparr> limit = Some (- 1), offset = None, orderBy = None, pageUid = Some ''abc123'',
            select = None \<rparr>) = [JString ''abc123'']
   \<and> list_all (\<lambda>m. \<not> startsWith m '':limit'')
        (modifiers \<lparr> limit = Some (- 1), offset = None, orderBy = None,
                     pageUid = Some ''abc123'', select = None \<rparr>)
   \<and> (\<exists>ms. modifiers \<lparr> limit = Some 50, offset = None, orderBy = None,
                        pageUid = None, select = None \<rparr> = ('':limit '' @ showInt 50) # ms)"
proof -
  let ?o1 = "\<lparr> limit = Some (- 1), offset = None, orderBy = None, pageUid = Some ''abc123'',
               select = None \<rparr>"
  let ?o2 = "\<lparr> limit = Some 50, offset = None, orderBy = None, pageUid = None :: string option,
               select = None :: string list option \<rparr>"
  note t1 = buildDatalogQuery_shape [of emptyClauses ?o1]
  note t2 = buildDatalogQuery_shape [of emptyClauses ?o2]
  have a: "snd (buildDatalogQuery emptyClauses ?o1) = [JString ''abc123'']"
    using t1 by (simp add: emptyClauses_def)
  have b: "list_all (\<lambda>m. \<not> startsWith m '':limit'') (modifiers ?o1)"
    using t1 by simp
  have c: "\<exists>ms. modifiers ?o2 = ('':limit '' @ showInt 50) # ms"
    using t2 by auto
  from a b c show ?thesis by blast
qed

text \<open>
  An empty page-scope identifier is supplied and adds neither the fragment nor the
  argument.
\<close>

theorem buildDatalogQuery_empty_pageUid_counterexample:
  "snd (buildDatalogQuery emptyClauses
          \<lparr> limit = None, offset = None, orderBy = None, pageUid = Some [],
            select = None \<rparr>) = []
   \<and> allWhereClauses emptyClauses (Some []) =
       [''[?b :block/string ?block-str]'', ''[?b :block/uid ?block-uid]'',
        ''[?b :block/page ?p]'', ''[?p :node/title ?page-title]'']"
  by (simp add: buildDatalogQuery_def buildArgs_def allWhereClauses_def baseClauses_def
        truthy_def emptyClauses_def Let_def)

text \<open>
  C6.  The count query has the arguments and the in-clause of the main query, its
  where-section is the main one without the page-title base fragment (so it keeps the
  generated fragments), its projection is \<^verbatim>\<open>(count ?b)\<close>, and nothing stands
  between its in-clause and \<^verbatim>\<open>:where\<close>: no limit, offset or order modifier.
\<close>

theorem buildCountQuery_shape:
  "snd (buildCountQuery clauses (pageUid options)) = snd (buildDatalogQuery clauses options)
   \<and> countAllWhereClauses clauses pu =
       remove1 ''[?p :node/title ?page-title]'' (allWhereClauses clauses pu)
   \<and> countAllWhereClauses clauses pu =
       [''[?b :block/string ?block-str]'', ''[?b :block/uid ?block-uid]'',
        ''[?b :block/page ?p]'']
       @ (case pu of
            None \<Rightarrow> []
          | Some u \<Rightarrow> if u = [] then [] else [''[?p :block/uid ?target-page-uid]''])
       @ whereClauses clauses
   \<and> fst (buildCountQuery clauses pu) =
       ''[:find (count ?b)'' @ nl
         @ indent20 @ inClause clauses pu @ nl
         @ indent20 @ '':where'' @ nl
         @ indent20 @ join (nl @ indent20) (countAllWhereClauses clauses pu) @ '']''"
  by (simp add: buildCountQuery_def buildDatalogQuery_def Let_def countAllWhereClauses_def
        allWhereClauses_def countBaseClauses_def baseClauses_def truthy_def
      split: option.splits)

section \<open>Properties of the block utilities\<close>

lemma canonicalize_nat:
  "(of_char (canonicalize c) :: nat) =
     (if 97 \<le> (of_char c :: nat) \<and> (of_char c :: nat) \<le> 122 then of_char c - 32 else of_char c)"
proof -
  have "(of_char c :: nat) < 256" by simp
  then show ?thesis
    by (auto simp: canonicalize_def Let_def)
qed

lemma toLowerChar_nat:
  "(of_char (toLowerChar c) :: nat) =
     (if (65 \<le> (of_char c :: nat) \<and> (of_char c :: nat) \<le> 90)
         \<or> (192 \<le> (of_char c :: nat) \<and> (of_char c :: nat) \<le> 222 \<and> (of_char c :: nat) \<noteq> 215)
      then of_char c + 32 else of_char c)"
proof -
  have "(of_char c :: nat) < 256" by simp
  then show ?thesis
    by (auto simp: toLowerChar_def Let_def)
qed

lemma canonicalize_toLowerChar:
  assumes "p \<in> set queryPrefix"
  shows "canonicalize c = canonicalize p \<longleftrightarrow> toLowerChar c = p"
proof -
  have "(of_char (canonicalize c) :: nat) = of_char (canonicalize p)
          \<longleftrightarrow> (of_char (toLowerChar c) :: nat) = of_char p"
    using assms unfolding canonicalize_nat toLowerChar_nat queryPrefix_def
    by (auto intro!: of_char_eqI [where ?'a = nat])
  then show ?thesis by simp
qed

lemma map_eq_map_iff_nth:
  "map f xs = map g ys \<longleftrightarrow> length xs = length ys \<and> (\<forall>i<length ys. f (xs ! i) = g (ys ! i))"
  by (auto simp: list_eq_iff_nth_eq)

lemma map_eq_iff_nth:
  "map f xs = ys \<longleftrightarrow> length xs = length ys \<and> (\<forall>i<length ys. f (xs ! i) = ys ! i)"
  by (auto simp: list_eq_iff_nth_eq)

lemma map_canonicalize_prefix:
  "map canonicalize xs = map canonicalize queryPrefix \<longleftrightarrow> toLowerCase xs = queryPrefix"
proof -
  have step: "canonicalize (xs ! i) = canonicalize (queryPrefix ! i)
                \<longleftrightarrow> toLowerChar (xs ! i) = queryPrefix ! i"
    if "i < length queryPrefix" for i
    using canonicalize_toLowerChar [OF nth_mem [OF that]] .
  show ?thesis
    unfolding toLowerCase_def map_eq_map_iff_nth [of canonicalize xs canonicalize queryPrefix]
      map_eq_iff_nth [of toLowerChar xs queryPrefix]
    using step by blast
qed

lemma toLowerCase_prefix_hd:
  assumes "toLowerCase pre = queryPrefix"
  shows "\<exists>rest. pre = CHR ''{'' # rest"
proof -
  from assms obtain c rest where pre: "pre = c # rest"
    by (cases pre) (auto simp: toLowerCase_def queryPrefix_def)
  with assms have "toLowerChar c = CHR ''{''"
    by (simp add: toLowerCase_def queryPrefix_def)
  then have "(of_char (toLowerChar c) :: nat) = 123" by simp
  then have "(of_char c :: nat) = 123"
    unfolding toLowerChar_nat by (auto split: if_splits)
  then have "c = CHR ''{''"
    by (auto intro!: of_char_eqI [where ?'a = nat])
  with pre show ?thesis by simp
qed

text \<open>
  C8, as the code has it.  \<^verbatim>\<open>isQueryBlock\<close> holds exactly for a text that is some
  white space, then the wrapper prefix in any letter case, then anything.
\<close>

theorem isQueryBlock_any_case:
  "isQueryBlock s \<longleftrightarrow>
     (\<exists>ws pre rest. s = ws @ pre @ rest \<and> list_all isWhitespace ws
        \<and> toLowerCase pre = queryPrefix)"
proof
  assume q: "isQueryBlock s"
  let ?r = "dropWhile isWhitespace s"
  have "s = takeWhile isWhitespace s @ take (length queryPrefix) ?r @ drop (length queryPrefix) ?r"
    by simp
  moreover have "list_all isWhitespace (takeWhile isWhitespace s)"
    by (simp add: list_all_iff) (meson set_takeWhileD)
  moreover from q have "toLowerCase (take (length queryPrefix) ?r) = queryPrefix"
    unfolding isQueryBlock_def Let_def map_canonicalize_prefix .
  ultimately show "\<exists>ws pre rest. s = ws @ pre @ rest \<and> list_all isWhitespace ws
        \<and> toLowerCase pre = queryPrefix"
    by blast
next
  assume "\<exists>ws pre rest. s = ws @ pre @ rest \<and> list_all isWhitespace ws
        \<and> toLowerCase pre = queryPrefix"
  then obtain ws pre rest where s: "s = ws @ pre @ rest" and ws: "list_all isWhitespace ws"
    and pre: "toLowerCase pre = queryPrefix"
    by blast
  from toLowerCase_prefix_hd [OF pre] obtain tl where hd: "pre = CHR ''{'' # tl" by blast
  have len: "length pre = length queryPrefix"
    using pre unfolding toLowerCase_def by (metis length_map)
  have "\<not> isWhitespace (CHR ''{'')"
    by (simp add: isWhitespace_def)
  with ws hd have "dropWhile isWhitespace s = pre @ rest"
    unfolding s by (simp add: list_all_iff dropWhile_append3 dropWhile_append)
  then have "take (length queryPrefix) (dropWhile isWhitespace s) = pre"
    using len by simp
  with pre show "isQueryBlock s"
    unfolding isQueryBlock_def Let_def map_canonicalize_prefix by simp
qed

text \<open>The prefix in upper case is accepted although the text does not begin with the prefix.\<close>

theorem isQueryBlock_upper_case_counterexample:
  "isQueryBlock ''{{[[QUERY]]:''
   \<and> \<not> startsWith (dropWhile isWhitespace ''{{[[QUERY]]:'') queryPrefix"
  by code_simp

lemma indexFrom_Some:
  "indexFrom cs p k = Some i \<Longrightarrow>
     k \<le> i \<and> take (length p) (drop (i - k) cs) = p
       \<and> (\<forall>j<i - k. take (length p) (drop j cs) \<noteq> p)"
proof (induction cs arbitrary: k)
  case Nil
  then show ?case by (auto split: if_splits)
next
  case (Cons c cs)
  show ?case
  proof (cases "take (length p) (c # cs) = p")
    case True
    with Cons.prems show ?thesis by simp
  next
    case False
    with Cons.prems have r: "indexFrom cs p (Suc k) = Some i" by simp
    from Cons.IH [OF r] have ge: "Suc k \<le> i"
      and at: "take (length p) (drop (i - Suc k) cs) = p"
      and before: "\<forall>j<i - Suc k. take (length p) (drop j cs) \<noteq> p"
      by auto
    from ge have eq: "i - k = Suc (i - Suc k)" by simp
    have "\<forall>j<i - k. take (length p) (drop j (c # cs)) \<noteq> p"
    proof (intro allI impI)
      fix j assume j: "j < i - k"
      show "take (length p) (drop j (c # cs)) \<noteq> p"
      proof (cases j)
        case 0
        with False show ?thesis by simp
      next
        case (Suc j')
        with j eq have "j' < i - Suc k" by simp
        with before Suc show ?thesis by simp
      qed
    qed
    with ge at eq show ?thesis by simp
  qed
qed

lemma indexFrom_None:
  "indexFrom cs p k = None \<Longrightarrow> p \<noteq> [] \<Longrightarrow> take (length p) (drop j cs) \<noteq> p"
proof (induction cs arbitrary: k j)
  case Nil
  then show ?case by auto
next
  case (Cons c cs)
  from Cons.prems have ne: "take (length p) (c # cs) \<noteq> p" and r: "indexFrom cs p (Suc k) = None"
    by (auto split: if_splits)
  show ?case
  proof (cases j)
    case 0
    with ne show ?thesis by simp
  next
    case (Suc j')
    with Cons.IH [OF r Cons.prems(2), of j'] show ?thesis by simp
  qed
qed

lemma indexOf_Some:
  assumes "indexOf s queryPrefix start = Some i"
  shows "firstOccurrence s start i"
proof -
  from indexFrom_Some [OF assms [unfolded indexOf_def]]
  have ge: "start \<le> i"
    and at: "take (length queryPrefix) (drop (i - start) (drop start s)) = queryPrefix"
    and before: "\<forall>j<i - start. take (length queryPrefix) (drop j (drop start s)) \<noteq> queryPrefix"
    by auto
  from ge at have "occursAt s i" by (simp add: occursAt_def)
  moreover have "\<not> occursAt s j" if "start \<le> j" "j < i" for j
  proof -
    from that have "j - start < i - start" by simp
    with before have "take (length queryPrefix) (drop (j - start) (drop start s)) \<noteq> queryPrefix"
      by blast
    with that show ?thesis by (simp add: occursAt_def)
  qed
  ultimately show ?thesis using ge by (auto simp: firstOccurrence_def)
qed

lemma indexOf_None:
  assumes "indexOf s queryPrefix start = None" "start \<le> i"
  shows "\<not> occursAt s i"
proof -
  have "queryPrefix \<noteq> []"
    using length_queryPrefix by auto
  from indexFrom_None [OF assms(1) [unfolded indexOf_def] this, of "i - start"]
  have "take (length queryPrefix) (drop (i - start) (drop start s)) \<noteq> queryPrefix" .
  with assms(2) show ?thesis by (simp add: occursAt_def)
qed

lemma braceBalance_take_Suc:
  "braceBalance (take (Suc k) (c # cs)) =
     (if c = CHR ''{'' then 1 else if c = CHR ''}'' then - 1 else 0) + braceBalance (take k cs)"
  by simp

lemma scanBraces_spec:
  "scanBraces cs pos d = (p, d') \<Longrightarrow>
     \<exists>n\<le>length cs. p = pos + n \<and> int d' = int d + braceBalance (take n cs)
        \<and> (\<forall>k<n. 0 < int d + braceBalance (take k cs)) \<and> (d' = 0 \<or> n = length cs)"
proof (induction cs arbitrary: pos d)
  case Nil
  then show ?case by simp
next
  case (Cons c cs)
  show ?case
  proof (cases "d > 0")
    case False
    with Cons.prems show ?thesis by (intro exI [of _ 0]) simp
  next
    case True
    let ?d2 = "if c = CHR ''{'' then d + 1 else if c = CHR ''}'' then d - 1 else d"
    have d2: "int ?d2 = int d + (if c = CHR ''{'' then 1 else if c = CHR ''}'' then - 1 else 0)"
      using True by auto
    from Cons.prems True have r: "scanBraces cs (pos + 1) ?d2 = (p, d')" by simp
    from Cons.IH [OF r] obtain n where n: "n \<le> length cs" and p: "p = pos + 1 + n"
      and bal: "int d' = int ?d2 + braceBalance (take n cs)"
      and pos: "\<forall>k<n. 0 < int ?d2 + braceBalance (take k cs)"
      and fin: "d' = 0 \<or> n = length cs"
      by blast
    have "\<forall>k<Suc n. 0 < int d + braceBalance (take k (c # cs))"
    proof (intro allI impI)
      fix k assume k: "k < Suc n"
      show "0 < int d + braceBalance (take k (c # cs))"
      proof (cases k)
        case 0
        with True show ?thesis by simp
      next
        case (Suc k')
        with k have "k' < n" by simp
        with pos have "0 < int ?d2 + braceBalance (take k' cs)" by blast
        then show ?thesis unfolding Suc braceBalance_take_Suc d2 by simp
      qed
    qed
    moreover have "int d' = int d + braceBalance (take (Suc n) (c # cs))"
      unfolding braceBalance_take_Suc using bal d2 by simp
    ultimately show ?thesis
      using n p fin by (intro exI [of _ "Suc n"]) auto
  qed
qed

lemma extractLoop_end: "length s \<le> start \<Longrightarrow> extractLoop s start acc = acc"
  by (subst extractLoop.simps) simp

lemma extractLoop_none:
  "indexOf s queryPrefix startIdx = None \<Longrightarrow> extractLoop s startIdx m = m"
  by (subst extractLoop.simps) (simp only: option.case if_cancel)

lemma extractLoop_found:
  assumes "startIdx < length s" and "indexOf s queryPrefix startIdx = Some i"
    and "scanBraces (drop (i + length queryPrefix) s) (i + length queryPrefix) 2 = (pos, depth)"
  shows "extractLoop s startIdx m =
           extractLoop s pos (if depth = 0 then m @ [slice s i pos] else m)"
  by (subst extractLoop.simps) (simp only: assms if_True option.case prod.case)

lemma extractLoop_progress:
  assumes "indexOf s queryPrefix startIdx = Some i"
    and "scanBraces (drop (i + length queryPrefix) s) (i + length queryPrefix) 2 = (pos, depth)"
  shows "startIdx < pos"
proof -
  from assms(1) have "startIdx \<le> i"
    unfolding indexOf_def by (rule indexFrom_ge)
  moreover from scanBraces_pos [OF assms(2)] have "i + length queryPrefix \<le> pos" .
  ultimately show ?thesis by (simp add: length_queryPrefix)
qed

lemma extractLoop_acc: "extractLoop s start acc = acc @ extractLoop s start []"
proof (induction "length s - start" arbitrary: start acc rule: less_induct)
  case less
  show ?case
  proof (cases "start < length s")
    case False
    then show ?thesis by (simp add: extractLoop_end)
  next
    case lt: True
    show ?thesis
    proof (cases "indexOf s queryPrefix start")
      case None
      then show ?thesis by (simp only: extractLoop_none append_Nil2)
    next
      case (Some foundIdx)
      obtain pos depth where sc: "scanBraces (drop (foundIdx + length queryPrefix) s)
                     (foundIdx + length queryPrefix) 2 = (pos, depth)"
        by (cases "scanBraces (drop (foundIdx + length queryPrefix) s)
                     (foundIdx + length queryPrefix) 2")
      from extractLoop_progress [OF Some sc] lt have dec: "length s - pos < length s - start"
        by simp
      note ih = less.hyps [OF dec]
      show ?thesis
        unfolding extractLoop_found [OF lt Some sc, of acc]
          extractLoop_found [OF lt Some sc, of "[]"]
        using ih [of "acc @ [slice s foundIdx pos]"] ih [of "[slice s foundIdx pos]"] ih [of acc]
        by (cases "depth = 0") simp_all
    qed
  qed
qed

lemma depthAt_scan:
  "depthAt s a (a + n) = 2 + braceBalance (take n (drop a s))"
  by (simp add: depthAt_def slice_def)

lemma occursAt_length: "occursAt s i \<Longrightarrow> i + length queryPrefix \<le> length s"
proof -
  assume "occursAt s i"
  then have "length (take (length queryPrefix) (drop i s)) = length queryPrefix"
    unfolding occursAt_def by (rule arg_cong)
  then show ?thesis by (simp add: length_queryPrefix)
qed

lemma scanBraces_firstClose:
  assumes occ: "occursAt s i"
    and sc: "scanBraces (drop (i + length queryPrefix) s) (i + length queryPrefix) 2 = (pos, depth)"
  shows "(depth = 0 \<and> firstClose s (i + length queryPrefix) pos)
       \<or> (depth \<noteq> 0 \<and> pos = length s \<and> (\<forall>e. \<not> firstClose s (i + length queryPrefix) e))"
proof -
  let ?a = "i + length queryPrefix"
  from occursAt_length [OF occ] have a_le: "?a \<le> length s" .
  from scanBraces_spec [OF sc] obtain n where n: "n \<le> length (drop ?a s)"
    and pos: "pos = ?a + n"
    and bal: "int depth = int 2 + braceBalance (take n (drop ?a s))"
    and positive: "\<forall>k<n. 0 < int 2 + braceBalance (take k (drop ?a s))"
    and fin: "depth = 0 \<or> n = length (drop ?a s)"
    by blast
  show ?thesis
  proof (cases "depth = 0")
    case True
    have "firstClose s ?a pos"
      unfolding firstClose_def
    proof (intro conjI allI impI)
      show "?a \<le> pos" using pos by simp
      show "pos \<le> length s" using pos n a_le by simp
      show "depthAt s ?a pos = 0"
        unfolding pos depthAt_scan using bal True by simp
      fix k assume k: "?a \<le> k \<and> k < pos"
      then have "k - ?a < n" using pos by arith
      with positive have "0 < int 2 + braceBalance (take (k - ?a) (drop ?a s))" by blast
      moreover from k have "k = ?a + (k - ?a)" by simp
      ultimately show "0 < depthAt s ?a k"
        using depthAt_scan [of s ?a "k - ?a"] by simp
    qed
    with True show ?thesis by simp
  next
    case False
    with fin have nlen: "n = length (drop ?a s)" by simp
    have "\<not> firstClose s ?a e" for e
    proof
      assume fc: "firstClose s ?a e"
      then have e: "?a \<le> e" "e \<le> length s" "depthAt s ?a e = 0"
        by (simp_all add: firstClose_def)
      from e have en: "e - ?a \<le> n" using nlen by simp
      have "0 < int 2 + braceBalance (take (e - ?a) (drop ?a s))"
      proof (cases "e - ?a < n")
        case True
        with positive show ?thesis by blast
      next
        case False
        with en have "e - ?a = n" by simp
        with bal \<open>depth \<noteq> 0\<close> show ?thesis by simp
      qed
      moreover from e have "e = ?a + (e - ?a)" by simp
      ultimately have "0 < depthAt s ?a e"
        using depthAt_scan [of s ?a "e - ?a"] by simp
      with e show False by simp
    qed
    moreover have "pos = length s" using pos nlen a_le by simp
    ultimately show ?thesis using False by simp
  qed
qed

lemma firstOccurrence_unique:
  assumes "firstOccurrence s start i" "firstOccurrence s start j"
  shows "i = j"
proof (rule ccontr)
  assume "i \<noteq> j"
  then consider "i < j" | "j < i" by arith
  then show False
    using assms by cases (auto simp: firstOccurrence_def)
qed

lemma firstClose_unique:
  assumes "firstClose s a e" "firstClose s a e'"
  shows "e = e'"
proof (rule ccontr)
  assume "e \<noteq> e'"
  then consider "e < e'" | "e' < e" by arith
  then show False
  proof cases
    case 1
    with assms have "0 < depthAt s a e" "depthAt s a e = 0"
      by (auto simp: firstClose_def)
    then show False by simp
  next
    case 2
    with assms have "0 < depthAt s a e'" "depthAt s a e' = 0"
      by (auto simp: firstClose_def)
    then show False by simp
  qed
qed

lemma extractLoop_blocksFrom: "blocksFrom s start (extractLoop s start [])"
proof (induction "length s - start" arbitrary: start rule: less_induct)
  case less
  show ?case
  proof (cases "indexOf s queryPrefix start")
    case None
    then have "\<forall>i. start \<le> i \<longrightarrow> \<not> occursAt s i"
      using indexOf_None by blast
    then show ?thesis
      unfolding extractLoop_none [OF None] by (rule blocksFrom.no_occurrence)
  next
    case (Some i)
    from indexOf_Some [OF Some] have fo: "firstOccurrence s start i" .
    then have occ: "occursAt s i" by (simp add: firstOccurrence_def)
    let ?a = "i + length queryPrefix"
    from occursAt_length [OF occ] fo have lt: "start < length s"
      by (simp add: firstOccurrence_def length_queryPrefix)
    obtain pos depth where sc: "scanBraces (drop ?a s) ?a 2 = (pos, depth)"
      by (cases "scanBraces (drop ?a s) ?a 2")
    have step: "extractLoop s start [] =
                  extractLoop s pos (if depth = 0 then [] @ [slice s i pos] else [])"
      by (rule extractLoop_found [OF lt Some sc])
    from scanBraces_firstClose [OF occ sc] show ?thesis
    proof (elim disjE conjE)
      assume d0: "depth = 0" and fc: "firstClose s ?a pos"
      from extractLoop_progress [OF Some sc] lt
      have "length s - pos < length s - start" by simp
      then have "blocksFrom s pos (extractLoop s pos [])" by (rule less.hyps)
      with fo fc have "blocksFrom s start (slice s i pos # extractLoop s pos [])"
        by (intro blocksFrom.block)
      moreover have "extractLoop s start [] = slice s i pos # extractLoop s pos []"
        unfolding step using d0 extractLoop_acc [of s pos "[slice s i pos]"] by simp
      ultimately show ?thesis by simp
    next
      assume d: "depth \<noteq> 0" and p: "pos = length s" and nc: "\<forall>e. \<not> firstClose s ?a e"
      from fo nc have "blocksFrom s start []"
        by (rule blocksFrom.unclosed)
      moreover have "extractLoop s start [] = []"
        unfolding step using d p by (simp add: extractLoop_end)
      ultimately show ?thesis by simp
    qed
  qed
qed

lemma blocksFrom_extractLoop: "blocksFrom s start r \<Longrightarrow> r = extractLoop s start []"
proof (induction rule: blocksFrom.induct)
  case (no_occurrence start s)
  have "indexOf s queryPrefix start = None"
  proof (cases "indexOf s queryPrefix start")
    case (Some i)
    from indexOf_Some [OF Some] no_occurrence show ?thesis
      by (auto simp: firstOccurrence_def)
  qed simp
  then show ?case by (simp only: extractLoop_none)
next
  case (unclosed s start i)
  then have occ: "occursAt s i" by (simp add: firstOccurrence_def)
  let ?a = "i + length queryPrefix"
  from occursAt_length [OF occ] unclosed(1) have lt: "start < length s"
    by (simp add: firstOccurrence_def length_queryPrefix)
  have idx: "indexOf s queryPrefix start = Some i"
  proof (cases "indexOf s queryPrefix start")
    case None
    from indexOf_None [OF None] unclosed(1) show ?thesis
      by (auto simp: firstOccurrence_def)
  next
    case (Some j)
    from firstOccurrence_unique [OF indexOf_Some [OF Some] unclosed(1)] Some
    show ?thesis by simp
  qed
  obtain pos depth where sc: "scanBraces (drop ?a s) ?a 2 = (pos, depth)"
    by (cases "scanBraces (drop ?a s) ?a 2")
  from scanBraces_firstClose [OF occ sc] unclosed(2)
  have "depth \<noteq> 0" "pos = length s" by auto
  then show ?case
    unfolding extractLoop_found [OF lt idx sc, of "[]"] by (simp add: extractLoop_end)
next
  case (block s start i e rest)
  then have occ: "occursAt s i" by (simp add: firstOccurrence_def)
  let ?a = "i + length queryPrefix"
  from occursAt_length [OF occ] block(1) have lt: "start < length s"
    by (simp add: firstOccurrence_def length_queryPrefix)
  have idx: "indexOf s queryPrefix start = Some i"
  proof (cases "indexOf s queryPrefix start")
    case None
    from indexOf_None [OF None] block(1) show ?thesis
      by (auto simp: firstOccurrence_def)
  next
    case (Some j)
    from firstOccurrence_unique [OF indexOf_Some [OF Some] block(1)] Some
    show ?thesis by simp
  qed
  obtain pos depth where sc: "scanBraces (drop ?a s) ?a 2 = (pos, depth)"
    by (cases "scanBraces (drop ?a s) ?a 2")
  from scanBraces_firstClose [OF occ sc] block(2)
  have d0: "depth = 0" and fc: "firstClose s ?a pos" by auto
  from firstClose_unique [OF fc block(2)] have pe: "pos = e" .
  show ?case
    unfolding extractLoop_found [OF lt idx sc, of "[]"]
    using d0 pe block.IH extractLoop_acc [of s e "[slice s i e]"] by simp
qed

text \<open>
  C7, as the code has it.  \<^verbatim>\<open>extractQueryBlocks\<close> returns exactly the blocks of the
  text: from each first occurrence of the prefix at or after the scan position, with the
  depth counted from 2 just past it, the text up to where the depth first returns to
  zero, the scan resuming just past that.  An occurrence whose depth never returns to
  zero before the end of the text gives no block and ends the scan, so that no
  occurrence after it is returned.  On a text with two wrapper occurrences with inner
  braces it returns the two in full.
\<close>

theorem extractQueryBlocks_spec:
  "(blocksFrom s 0 r \<longleftrightarrow> r = extractQueryBlocks s)
   \<and> (\<forall>i. firstOccurrence s 0 i \<and> (\<forall>e. \<not> firstClose s (i + length queryPrefix) e) \<longrightarrow>
          extractQueryBlocks s = [])
   \<and> extractQueryBlocks
       ''See {{[[query]]: {and: [[a]] [[b]]}}} and {{[[query]]: {between: [[last month]] [[today]]}}} done'' =
       [''{{[[query]]: {and: [[a]] [[b]]}}}'',
        ''{{[[query]]: {between: [[last month]] [[today]]}}}'']"
proof (intro conjI allI impI)
  show "blocksFrom s 0 r \<longleftrightarrow> r = extractQueryBlocks s"
    unfolding extractQueryBlocks_def
    using extractLoop_blocksFrom [of s 0] blocksFrom_extractLoop [of s 0 r] by blast
next
  fix i
  assume "firstOccurrence s 0 i \<and> (\<forall>e. \<not> firstClose s (i + length queryPrefix) e)"
  then have "blocksFrom s 0 []" by (blast intro: blocksFrom.unclosed)
  from blocksFrom_extractLoop [OF this] show "extractQueryBlocks s = []"
    by (simp add: extractQueryBlocks_def)
next
  show "extractQueryBlocks
       ''See {{[[query]]: {and: [[a]] [[b]]}}} and {{[[query]]: {between: [[last month]] [[today]]}}} done'' =
       [''{{[[query]]: {and: [[a]] [[b]]}}}'',
        ''{{[[query]]: {between: [[last month]] [[today]]}}}'']"
    by code_simp
qed

theorem extractQueryBlocks_spec_witness:
  "blocksFrom
     ''See {{[[query]]: {and: [[a]] [[b]]}}} and {{[[query]]: {between: [[last month]] [[today]]}}} done''
     0
     [''{{[[query]]: {and: [[a]] [[b]]}}}'',
      ''{{[[query]]: {between: [[last month]] [[today]]}}}'']
   \<and> firstOccurrence ''{{[[query]]: {and: [[a]]}'' 0 0
   \<and> extractQueryBlocks ''{{[[query]]: {and: [[a]]}'' = []"
proof (intro conjI)
  show "blocksFrom
     ''See {{[[query]]: {and: [[a]] [[b]]}}} and {{[[query]]: {between: [[last month]] [[today]]}}} done''
     0
     [''{{[[query]]: {and: [[a]] [[b]]}}}'',
      ''{{[[query]]: {between: [[last month]] [[today]]}}}'']"
    using extractQueryBlocks_spec
      [of "''See {{[[query]]: {and: [[a]] [[b]]}}} and {{[[query]]: {between: [[last month]] [[today]]}}} done''"
          "[''{{[[query]]: {and: [[a]] [[b]]}}}'',
            ''{{[[query]]: {between: [[last month]] [[today]]}}}'']"]
    by simp
next
  let ?s = "''{{[[query]]: {and: [[a]]}''"
  have "occursAt ?s 0" by code_simp
  then show fo: "firstOccurrence ?s 0 0" by (simp add: firstOccurrence_def)
  have d: "\<forall>e\<in>set [12..<26]. depthAt ?s 12 e \<noteq> 0" by code_simp
  have nc: "\<forall>e. \<not> firstClose ?s (0 + length queryPrefix) e"
  proof (intro allI notI)
    fix e assume "firstClose ?s (0 + length queryPrefix) e"
    then have "12 \<le> e \<and> e < 26" and z: "depthAt ?s 12 e = 0"
      by (simp_all add: firstClose_def length_queryPrefix)
    then have "e \<in> set [12..<26]" unfolding set_upt atLeastLessThan_iff by blast
    with d z show False by blast
  qed
  show "extractQueryBlocks ?s = []"
    by (rule extractQueryBlocks_spec
          [of ?s "[]", THEN conjunct2, THEN conjunct1, rule_format, OF conjI [OF fo nc]])
qed

text \<open>
  An occurrence that never closes, followed by one that does: the second occurrence, at
  17, closes at 37 and alone is returned in full, but after the first the scan has
  reached the end of the text and nothing is returned.
\<close>

theorem extractQueryBlocks_unclosed_counterexample:
  "occursAt ''{{[[query]]: {a} {{[[query]]: [[b]]}}'' 17
   \<and> firstClose ''{{[[query]]: {a} {{[[query]]: [[b]]}}'' (17 + length queryPrefix) 37
   \<and> slice ''{{[[query]]: {a} {{[[query]]: [[b]]}}'' 17 37 = ''{{[[query]]: [[b]]}}''
   \<and> extractQueryBlocks ''{{[[query]]: [[b]]}}'' = [''{{[[query]]: [[b]]}}'']
   \<and> extractQueryBlocks ''{{[[query]]: {a} {{[[query]]: [[b]]}}'' = []"
proof (intro conjI)
  let ?s = "''{{[[query]]: {a} {{[[query]]: [[b]]}}''"
  show "occursAt ?s 17" by code_simp
  have d: "\<forall>k\<in>set [29..<37]. 0 < depthAt ?s 29 k" by code_simp
  have "\<forall>k. 29 \<le> k \<and> k < 37 \<longrightarrow> 0 < depthAt ?s 29 k"
  proof (intro allI impI)
    fix k :: nat assume "29 \<le> k \<and> k < 37"
    then have "k \<in> set [29..<37]" unfolding set_upt atLeastLessThan_iff .
    with d show "0 < depthAt ?s 29 k" by blast
  qed
  moreover have "depthAt ?s 29 37 = 0" by code_simp
  ultimately show "firstClose ?s (17 + length queryPrefix) 37"
    by (simp add: firstClose_def length_queryPrefix)
  show "slice ?s 17 37 = ''{{[[query]]: [[b]]}}''" by code_simp
  show "extractQueryBlocks ''{{[[query]]: [[b]]}}'' = [''{{[[query]]: [[b]]}}'']" by code_simp
  show "extractQueryBlocks ?s = []" by code_simp
qed

section \<open>Dates and the between node\<close>

lemma div_bounds:
  fixes x k :: int
  assumes "0 < k"
  shows "k * (x div k) \<le> x" and "x < k * (x div k) + k"
proof -
  have "x = k * (x div k) + x mod k" by simp
  moreover have "0 \<le> x mod k" "x mod k < k" using assms by simp_all
  ultimately show "k * (x div k) \<le> x" and "x < k * (x div k) + k" by linarith+
qed

lemma div_succ:
  fixes x k :: int
  assumes "0 < k"
  shows "(x + 1) div k = x div k + (if (x + 1) mod k = 0 then 1 else 0)"
proof (cases "x mod k + 1 < k")
  case True
  have eq: "x + 1 = k * (x div k) + (x mod k + 1)" by simp
  have "0 \<le> x mod k + 1" using assms by (simp add: add_nonneg_nonneg)
  from int_div_pos_eq [OF eq this True] have d: "(x + 1) div k = x div k" .
  have "(x + 1) mod k = x mod k + 1"
    using int_mod_pos_eq [OF eq \<open>0 \<le> x mod k + 1\<close> True] .
  moreover have "0 \<le> x mod k" using assms by simp
  ultimately have "(x + 1) mod k \<noteq> 0" by linarith
  with d show ?thesis by simp
next
  case False
  moreover have "x mod k < k" using assms by simp
  ultimately have m: "x mod k + 1 = k" by linarith
  have "x + 1 = k * (x div k) + (x mod k + 1)" by simp
  with m have eq: "x + 1 = k * (x div k + 1) + 0" by (simp add: algebra_simps)
  from int_div_pos_eq [OF eq] assms have d: "(x + 1) div k = x div k + 1" by simp
  from int_mod_pos_eq [OF eq] assms have "(x + 1) mod k = 0" by simp
  with d show ?thesis by simp
qed

lemma mod_shift:
  fixes y :: int
  shows "(y - 1968) mod 4 = 0 \<longleftrightarrow> y mod 4 = 0"
    and "(y - 1900) mod 100 = 0 \<longleftrightarrow> y mod 100 = 0"
    and "(y - 1600) mod 400 = 0 \<longleftrightarrow> y mod 400 = 0"
proof -
  have "(y - 1968) mod 4 = (y - 1968 mod 4) mod 4"
    by (simp only: mod_diff_right_eq)
  then show "(y - 1968) mod 4 = 0 \<longleftrightarrow> y mod 4 = 0" by simp
  have "(y - 1900) mod 100 = (y - 1900 mod 100) mod 100"
    by (simp only: mod_diff_right_eq)
  then show "(y - 1900) mod 100 = 0 \<longleftrightarrow> y mod 100 = 0" by simp
  have "(y - 1600) mod 400 = (y - 1600 mod 400) mod 400"
    by (simp only: mod_diff_right_eq)
  then show "(y - 1600) mod 400 = 0 \<longleftrightarrow> y mod 400 = 0" by simp
qed

lemma mod_chain:
  fixes y :: int
  shows "y mod 400 = 0 \<Longrightarrow> y mod 100 = 0" and "y mod 100 = 0 \<Longrightarrow> y mod 4 = 0"
proof -
  assume "y mod 400 = 0"
  then have "400 dvd y" by (simp add: dvd_eq_mod_eq_0)
  then have "100 dvd y" by (rule dvd_trans [rotated]) simp
  then show "y mod 100 = 0" by (simp add: dvd_eq_mod_eq_0)
next
  assume "y mod 100 = 0"
  then have "100 dvd y" by (simp add: dvd_eq_mod_eq_0)
  then have "4 dvd y" by (rule dvd_trans [rotated]) simp
  then show "y mod 4 = 0" by (simp add: dvd_eq_mod_eq_0)
qed

lemma leap_indicator:
  fixes y :: int
  shows "(if y mod 4 = 0 then 1 else 0) - (if y mod 100 = 0 then 1 else 0)
           + (if y mod 400 = 0 then 1 else 0) = (if InLeapYear y then 1 else (0::int))"
proof (cases "y mod 400 = 0")
  case True
  with mod_chain [of y] show ?thesis by (simp add: InLeapYear_def)
next
  case n400: False
  show ?thesis
  proof (cases "y mod 100 = 0")
    case True
    with n400 mod_chain(2) [of y] show ?thesis by (simp add: InLeapYear_def)
  next
    case False
    with n400 show ?thesis by (simp add: InLeapYear_def)
  qed
qed

lemma DayFromYear_step:
  "DayFromYear (y + 1) = DayFromYear y + 365 + (if InLeapYear y then 1 else 0)"
proof -
  define q4 where "q4 = (y - 1969) div 4"
  define q100 where "q100 = (y - 1901) div 100"
  define q400 where "q400 = (y - 1601) div 400"
  have p: "(0::int) < 4" "(0::int) < 100" "(0::int) < 400" by simp_all
  have s: "y - 1969 + 1 = y - 1968" "y - 1901 + 1 = y - 1900" "y - 1601 + 1 = y - 1600"
    by simp_all
  have t: "y + 1 - 1969 = y - 1968" "y + 1 - 1901 = y - 1900" "y + 1 - 1601 = y - 1600"
    "y + 1 - 1970 = y - 1969"
    by simp_all
  have a: "(y - 1968) div 4 = q4 + (if y mod 4 = 0 then 1 else 0)"
    using div_succ [OF p(1), of "y - 1969"] by (simp only: s q4_def mod_shift)
  have b: "(y - 1900) div 100 = q100 + (if y mod 100 = 0 then 1 else 0)"
    using div_succ [OF p(2), of "y - 1901"] by (simp only: s q100_def mod_shift)
  have c: "(y - 1600) div 400 = q400 + (if y mod 400 = 0 then 1 else 0)"
    using div_succ [OF p(3), of "y - 1601"] by (simp only: s q400_def mod_shift)
  have l: "DayFromYear (y + 1) =
             365 * y - 718685 + q4 - q100 + q400
               + ((if y mod 4 = 0 then 1 else 0) - (if y mod 100 = 0 then 1 else 0)
                    + (if y mod 400 = 0 then 1 else 0))"
    unfolding DayFromYear_def t a b c by (simp only: algebra_simps)
  have r: "DayFromYear y = 365 * y - 719050 + q4 - q100 + q400"
    by (simp add: DayFromYear_def q4_def q100_def q400_def)
  show ?thesis
    unfolding l r leap_indicator by simp
qed

lemma DayFromYear_bounds:
  assumes "- 271001 \<le> y" "y \<le> 275001"
  shows "- 99800000 \<le> DayFromYear y" "DayFromYear y \<le> 99800000"
proof -
  define q4 where "q4 = (y - 1969) div 4"
  define q100 where "q100 = (y - 1901) div 100"
  define q400 where "q400 = (y - 1601) div 400"
  have p: "(0::int) < 4" "(0::int) < 100" "(0::int) < 400" by simp_all
  note d4 = div_bounds [OF p(1), of "y - 1969", folded q4_def]
  note d100 = div_bounds [OF p(2), of "y - 1901", folded q100_def]
  note d400 = div_bounds [OF p(3), of "y - 1601", folded q400_def]
  have eq: "DayFromYear y = 365 * y - 719050 + q4 - q100 + q400"
    by (simp add: DayFromYear_def q4_def q100_def q400_def)
  show "- 99800000 \<le> DayFromYear y"
    unfolding eq using assms d4 d100 d400 by linarith
  show "DayFromYear y \<le> 99800000"
    unfolding eq using assms d4 d100 d400 by linarith
qed

lemma monthStart_table:
  "\<forall>m\<in>set [1, 2, 3, 4, 5, 6, 7, 8, 9, 10, 11 :: int].
     \<forall>leap. monthStart (m - 1) leap + 28 \<le> monthStart m leap"
  "\<forall>m\<in>set [0, 1, 2, 3, 4, 5, 6, 7, 8, 9, 10, 11 :: int].
     \<forall>leap. 0 \<le> monthStart m leap \<and> monthStart m leap \<le> 335"
  by (simp_all add: monthStart_def)

lemma month_cases:
  fixes m :: int
  assumes "0 \<le> m" "m \<le> 11"
  shows "m \<in> set [0, 1, 2, 3, 4, 5, 6, 7, 8, 9, 10, 11 :: int]"
  using assms by simp presburger

lemma monthStart_step:
  assumes "1 \<le> m" "m \<le> 11"
  shows "monthStart (m - 1) leap + 28 \<le> monthStart m leap"
proof -
  from assms month_cases [of m] have "m \<in> set [1, 2, 3, 4, 5, 6, 7, 8, 9, 10, 11 :: int]"
    by simp
  with monthStart_table(1) show ?thesis by blast
qed

lemma monthStart_bounds:
  assumes "0 \<le> m" "m \<le> 11"
  shows "0 \<le> monthStart m leap" "monthStart m leap \<le> 335"
  using monthStart_table(2) month_cases [OF assms] by blast+

lemma MakeDay_month_step:
  assumes "0 \<le> m" "m \<le> 11"
  shows "MakeDay y (m - 1) d + 28 \<le> MakeDay y m d"
proof (cases "m = 0")
  case True
  have "DayFromYear y = DayFromYear (y - 1) + 365 + (if InLeapYear (y - 1) then 1 else 0)"
    using DayFromYear_step [of "y - 1"] by simp
  then show ?thesis
    using True by (simp add: MakeDay_def monthStart_def Let_def)
next
  case False
  with assms have m: "1 \<le> m" "m \<le> 11" by simp_all
  then have dm: "(m - 1) div 12 = 0" "(m - 1) mod 12 = m - 1" "m div 12 = 0" "m mod 12 = m"
    by simp_all
  from monthStart_step [OF m, of "InLeapYear y"] show ?thesis
    by (simp add: MakeDay_def Let_def dm)
qed

lemma MakeDay_bounds:
  assumes y: "- 271000 \<le> y" "y \<le> 275000" and m: "- 1 \<le> m" "m \<le> 11"
    and d: "1 \<le> d" "d \<le> 31"
  shows "- 99999000 \<le> MakeDay y m d" "MakeDay y m d \<le> 99999000"
proof -
  have p: "(0::int) < 12" by simp
  have md: "- 1 \<le> m div 12" "m div 12 \<le> 0" "0 \<le> m mod 12" "m mod 12 \<le> 11"
    using m div_bounds [OF p, of m] by simp_all
  then have yy: "- 271001 \<le> y + m div 12" "y + m div 12 \<le> 275001"
    using y by simp_all
  note b = DayFromYear_bounds [OF yy] monthStart_bounds [OF md(3,4), of "InLeapYear (y + m div 12)"]
  show "- 99999000 \<le> MakeDay y m d" "MakeDay y m d \<le> 99999000"
    using b d by (simp_all add: MakeDay_def Let_def)
qed

lemma newDateYMD_Num:
  assumes ok: "clockOk clk" and m: "- 1 \<le> m" "m \<le> 11"
  shows "\<exists>yr. newDateYMD clk (nowFullYear clk) m (nowDate clk) =
           Num (MakeDay yr m (nowDate clk) * msPerDay
                  - localTZA clk (MakeDay yr m (nowDate clk) * msPerDay))
         \<and> yr = (if 0 \<le> nowFullYear clk \<and> nowFullYear clk \<le> 99
                 then 1900 + nowFullYear clk else nowFullYear clk)"
proof -
  let ?y = "nowFullYear clk"
  let ?yr = "if 0 \<le> ?y \<and> ?y \<le> 99 then 1900 + ?y else ?y"
  define D where "D = MakeDay ?yr m (nowDate clk)"
  define z where "z = localTZA clk (D * msPerDay)"
  from ok have yr: "- 271000 \<le> ?yr" "?yr \<le> 275000"
    and d: "1 \<le> nowDate clk" "nowDate clk \<le> 31"
    and tz: "\<bar>z\<bar> \<le> msPerDay"
    by (auto simp: clockOk_def z_def)
  from MakeDay_bounds [OF yr m d] have D: "- 99999000 \<le> D" "D \<le> 99999000"
    by (simp_all add: D_def)
  have ms: "msPerDay = 86400000" by (simp add: msPerDay_def)
  from D tz have "\<bar>D * msPerDay - z\<bar> \<le> 8640000000000000"
    unfolding ms by linarith
  then have "TimeClip (D * msPerDay - z) = Num (D * msPerDay - z)"
    by (simp add: TimeClip_def)
  then show ?thesis
    by (simp add: newDateYMD_def Let_def D_def z_def)
qed

lemma lastMonth_before_today:
  assumes ok: "clockOk clk"
  shows "\<exists>a b. newDateYMD clk (nowFullYear clk) (nowMonth clk - 1) (nowDate clk) = Num a
           \<and> newDateYMD clk (nowFullYear clk) (nowMonth clk) (nowDate clk) = Num b
           \<and> a < b + (24 * 60 * 60 * 1000 - 1)"
proof -
  let ?y = "nowFullYear clk"
  let ?yr = "if 0 \<le> ?y \<and> ?y \<le> 99 then 1900 + ?y else ?y"
  let ?m = "nowMonth clk"
  let ?d = "nowDate clk"
  from ok have m: "0 \<le> ?m" "?m \<le> 11" by (simp_all add: clockOk_def)
  define D1 where "D1 = MakeDay ?yr (?m - 1) ?d"
  define D2 where "D2 = MakeDay ?yr ?m ?d"
  define z1 where "z1 = localTZA clk (D1 * msPerDay)"
  define z2 where "z2 = localTZA clk (D2 * msPerDay)"
  from m have m1: "- 1 \<le> ?m - 1" "?m - 1 \<le> 11" by simp_all
  from newDateYMD_Num [OF ok m1]
  have a: "newDateYMD clk ?y (?m - 1) ?d = Num (D1 * msPerDay - z1)"
    by (simp add: D1_def z1_def)
  from m have m2: "- 1 \<le> ?m" by simp
  from newDateYMD_Num [OF ok m2 m(2)]
  have b: "newDateYMD clk ?y ?m ?d = Num (D2 * msPerDay - z2)"
    by (simp add: D2_def z2_def)
  from MakeDay_month_step [OF m] have step: "D1 + 28 \<le> D2"
    by (simp add: D1_def D2_def)
  from ok have tz: "\<bar>z1\<bar> \<le> msPerDay" "\<bar>z2\<bar> \<le> msPerDay"
    by (simp_all add: clockOk_def z1_def z2_def)
  have ms: "msPerDay = 86400000" by (simp add: msPerDay_def)
  from step tz have "D1 * msPerDay - z1 < D2 * msPerDay - z2 + (24 * 60 * 60 * 1000 - 1)"
    unfolding ms by linarith
  with a b show ?thesis by blast
qed

lemma roamDate_today:
  "roamDateToTimestamp clk ''today'' =
     Inr (newDateYMD clk (nowFullYear clk) (nowMonth clk) (nowDate clk))"
proof -
  have n: "trim (toLowerCase ''today'') = ''today''" by code_simp
  show ?thesis
    by (simp add: roamDateToTimestamp_def n parseRelativeDate_def startOfToday_def Let_def)
qed

lemma roamDate_last_month:
  "roamDateToTimestamp clk ''last month'' =
     Inr (newDateYMD clk (nowFullYear clk) (nowMonth clk - 1) (nowDate clk))"
proof -
  have n: "trim (toLowerCase ''last month'') = ''last month''" by code_simp
  show ?thesis
    by (simp add: roamDateToTimestamp_def n parseRelativeDate_def startOfToday_def Let_def)
qed

lemma generateBetween_resolved:
  assumes "roamDateToTimestamp clk startDate = Inr startTs"
    and "roamDateToTimestamp clk endDate = Inr endTs"
  shows "generateNode clk (BetweenNode startDate endDate) blockVar st =
       Inr (\<lparr> whereClauses =
                [''['' @ blockVar @ '' :create/time ?create-time]'',
                 ''[(>= ?create-time ?start-date-'' @ showNat (inputCounter st) @ '')]'',
                 ''[(<= ?create-time ?end-date-'' @ showNat (inputCounter st + 1) @ '')]''],
              inputs = [''?start-date-'' @ showNat (inputCounter st),
                        ''?end-date-'' @ showNat (inputCounter st + 1)],
              inputValues = [JNumber startTs, JNumber (numAdd endTs (24 * 60 * 60 * 1000 - 1))] \<rparr>,
            st\<lparr>inputCounter := inputCounter st + 2\<rparr>)"
  using assms by (simp add: generateBetween_def Let_def)

text \<open>
  C2.  When both date expressions resolve, a between node yields the two input-variable
  names taken from the input counter, the start value and the end value plus
  \<open>24 * 60 * 60 * 1000 - 1\<close>, and three fragments: the binding of the creation time
  of the subject, \<^verbatim>\<open>>=\<close> the start and \<^verbatim>\<open><=\<close> the end.  On a clock of a
  runtime, \<^verbatim>\<open>{between: [[last month]] [[today]]}\<close> gives two numbers, the first
  below the second.
\<close>

theorem generateBetween_inclusive_range:
  "(roamDateToTimestamp clk startDate = Inr startTs
      \<and> roamDateToTimestamp clk endDate = Inr endTs \<longrightarrow>
    generateNode clk (BetweenNode startDate endDate) blockVar st =
       Inr (\<lparr> whereClauses =
                [''['' @ blockVar @ '' :create/time ?create-time]'',
                 ''[(>= ?create-time ?start-date-'' @ showNat (inputCounter st) @ '')]'',
                 ''[(<= ?create-time ?end-date-'' @ showNat (inputCounter st + 1) @ '')]''],
              inputs = [''?start-date-'' @ showNat (inputCounter st),
                        ''?end-date-'' @ showNat (inputCounter st + 1)],
              inputValues = [JNumber startTs, JNumber (numAdd endTs (24 * 60 * 60 * 1000 - 1))] \<rparr>,
            st\<lparr>inputCounter := inputCounter st + 2\<rparr>))
   \<and> (clockOk clk \<longrightarrow>
        (\<exists>a b. generate clk (BetweenNode ''last month'' ''today'') =
           Inr \<lparr> whereClauses =
                   [''[?b :create/time ?create-time]'',
                    ''[(>= ?create-time ?start-date-0)]'',
                    ''[(<= ?create-time ?end-date-1)]''],
                 inputs = [''?start-date-0'', ''?end-date-1''],
                 inputValues = [JNumber (Num a), JNumber (Num b)] \<rparr>
           \<and> a < b))"
proof (intro conjI impI)
  assume "roamDateToTimestamp clk startDate = Inr startTs
      \<and> roamDateToTimestamp clk endDate = Inr endTs"
  then show "generateNode clk (BetweenNode startDate endDate) blockVar st =
       Inr (\<lparr> whereClauses =
                [''['' @ blockVar @ '' :create/time ?create-time]'',
                 ''[(>= ?create-time ?start-date-'' @ showNat (inputCounter st) @ '')]'',
                 ''[(<= ?create-time ?end-date-'' @ showNat (inputCounter st + 1) @ '')]''],
              inputs = [''?start-date-'' @ showNat (inputCounter st),
                        ''?end-date-'' @ showNat (inputCounter st + 1)],
              inputValues = [JNumber startTs, JNumber (numAdd endTs (24 * 60 * 60 * 1000 - 1))] \<rparr>,
            st\<lparr>inputCounter := inputCounter st + 2\<rparr>)"
    using generateBetween_resolved by blast
next
  assume ok: "clockOk clk"
  from lastMonth_before_today [OF ok] obtain a b
    where a: "newDateYMD clk (nowFullYear clk) (nowMonth clk - 1) (nowDate clk) = Num a"
      and b: "newDateYMD clk (nowFullYear clk) (nowMonth clk) (nowDate clk) = Num b"
      and lt: "a < b + (24 * 60 * 60 * 1000 - 1)"
    by blast
  have sn: "showNat 0 = ''0''" "showNat (Suc 0) = ''1''" by code_simp+
  have "generate clk (BetweenNode ''last month'' ''today'') =
           Inr \<lparr> whereClauses =
                   [''[?b :create/time ?create-time]'',
                    ''[(>= ?create-time ?start-date-0)]'',
                    ''[(<= ?create-time ?end-date-1)]''],
                 inputs = [''?start-date-0'', ''?end-date-1''],
                 inputValues = [JNumber (Num a), JNumber (Num (b + (24 * 60 * 60 * 1000 - 1)))] \<rparr>"
    unfolding generate_def
      generateBetween_resolved [OF roamDate_last_month roamDate_today] a b
    by (simp add: sn)
  with lt show "\<exists>a b. generate clk (BetweenNode ''last month'' ''today'') =
           Inr \<lparr> whereClauses =
                   [''[?b :create/time ?create-time]'',
                    ''[(>= ?create-time ?start-date-0)]'',
                    ''[(<= ?create-time ?end-date-1)]''],
                 inputs = [''?start-date-0'', ''?end-date-1''],
                 inputValues = [JNumber (Num a), JNumber (Num b)] \<rparr>
           \<and> a < b"
    by blast
qed

theorem generateBetween_inclusive_range_witness:
  "clockOk exampleClock
   \<and> (\<exists>a b. generate exampleClock (BetweenNode ''last month'' ''today'') =
           Inr \<lparr> whereClauses =
                   [''[?b :create/time ?create-time]'',
                    ''[(>= ?create-time ?start-date-0)]'',
                    ''[(<= ?create-time ?end-date-1)]''],
                 inputs = [''?start-date-0'', ''?end-date-1''],
                 inputValues = [JNumber (Num a), JNumber (Num b)] \<rparr>
           \<and> a < b)
   \<and> generateNode exampleClock (BetweenNode ''yesterday'' ''today'') ''?b''
         \<lparr>refCounter = 0, inputCounter = 0\<rparr> =
       Inr (\<lparr> whereClauses =
                [''[?b :create/time ?create-time]'',
                 ''[(>= ?create-time ?start-date-0)]'',
                 ''[(<= ?create-time ?end-date-1)]''],
              inputs = [''?start-date-0'', ''?end-date-1''],
              inputValues = [JNumber (Num 1769731200000), JNumber (Num 1769903999999)] \<rparr>,
            \<lparr>refCounter = 0, inputCounter = 2\<rparr>)"
proof -
  have ok: "clockOk exampleClock"
    by (simp add: clockOk_def exampleClock_def msPerDay_def)
  have y: "roamDateToTimestamp exampleClock ''yesterday'' = Inr (Num 1769731200000)"
    by code_simp
  have t: "roamDateToTimestamp exampleClock ''today'' = Inr (Num 1769817600000)"
    by code_simp
  have sn: "showNat 0 = ''0''" "showNat (Suc 0) = ''1''" by code_simp+
  note th = generateBetween_inclusive_range
    [of exampleClock "''yesterday''" "Num 1769731200000" "''today''" "Num 1769817600000"
        "''?b''" "\<lparr>refCounter = 0, inputCounter = 0\<rparr>"]
  from th ok have lm: "\<exists>a b. generate exampleClock (BetweenNode ''last month'' ''today'') =
           Inr \<lparr> whereClauses =
                   [''[?b :create/time ?create-time]'',
                    ''[(>= ?create-time ?start-date-0)]'',
                    ''[(<= ?create-time ?end-date-1)]''],
                 inputs = [''?start-date-0'', ''?end-date-1''],
                 inputValues = [JNumber (Num a), JNumber (Num b)] \<rparr>
           \<and> a < b"
    by blast
  from th y t have "generateNode exampleClock (BetweenNode ''yesterday'' ''today'') ''?b''
         \<lparr>refCounter = 0, inputCounter = 0\<rparr> =
       Inr (\<lparr> whereClauses =
                [''[?b :create/time ?create-time]'',
                 ''[(>= ?create-time ?start-date-0)]'',
                 ''[(<= ?create-time ?end-date-1)]''],
              inputs = [''?start-date-0'', ''?end-date-1''],
              inputValues = [JNumber (Num 1769731200000), JNumber (Num 1769903999999)] \<rparr>,
            \<lparr>refCounter = 0, inputCounter = 2\<rparr>)"
    by (simp add: sn)
  with ok lm show ?thesis by blast
qed

section \<open>Properties of the parser and the executor\<close>

lemma skipWhitespace_ge: "pos \<le> skipWhitespace inp pos"
  by (simp add: skipWhitespace_def)

lemma expect_Inr: "expect inp pos ch = Inr p \<Longrightarrow> p = pos + 1 \<and> pos < length inp"
  by (auto simp: expect_def charAt_def split: if_splits)

lemma parseOperatorName_ge: "parseOperatorName inp pos = (op, p) \<Longrightarrow> pos \<le> p"
  by (auto simp: parseOperatorName_def parseIdentifier_def Let_def split: list.splits)

lemma tagLoop_ge: "tagLoop cs pos v d = (v', p, d') \<Longrightarrow> pos \<le> p"
  by (induction cs pos v d rule: tagLoop.induct) (auto split: if_splits)

lemma blockRefLoop_ge: "blockRefLoop cs pos uid = (uid', p) \<Longrightarrow> pos \<le> p"
  by (induction cs pos uid rule: blockRefLoop.induct) (auto split: if_splits)

lemma quotedLoop_ge: "quotedLoop cs pos v = (v', p) \<Longrightarrow> pos \<le> p"
  by (induction cs pos v rule: quotedLoop.induct) (auto split: if_splits)

lemma parseTag_ge: "parseTag inp pos = Inr (v, p) \<Longrightarrow> pos + 2 \<le> p"
  by (auto simp: parseTag_def split: sum.splits prod.splits if_splits
           dest!: expect_Inr tagLoop_ge)

lemma parseBlockRef_ge: "parseBlockRef inp pos = Inr (v, p) \<Longrightarrow> pos + 2 \<le> p"
  by (auto simp: parseBlockRef_def split: sum.splits prod.splits if_splits
           dest!: expect_Inr blockRefLoop_ge)

lemma readUntilBrace_ge: "readUntilBrace inp pos = (v, p) \<Longrightarrow> pos \<le> p"
  by (auto simp: readUntilBrace_def Let_def)

lemma parseSearch_ge: "parseSearch inp pos = (v, p) \<Longrightarrow> pos \<le> p"
proof -
  assume a: "parseSearch inp pos = (v, p)"
  let ?p = "skipWhitespace inp pos"
  have ge: "pos \<le> ?p" by (rule skipWhitespace_ge)
  show ?thesis
  proof (cases "charAt inp ?p = Some (CHR 0x22)")
    case True
    obtain v2 p2 where q: "quotedLoop (drop (?p + 1) inp) (?p + 1) [] = (v2, p2)"
      by (cases "quotedLoop (drop (?p + 1) inp) (?p + 1) []")
    from quotedLoop_ge [OF q] have "?p + 1 \<le> p2" .
    with a True q ge show ?thesis
      by (auto simp: parseSearch_def Let_def split: if_splits)
  next
    case False
    with a have "readUntilBrace inp ?p = (v, p)"
      by (simp add: parseSearch_def Let_def)
    from readUntilBrace_ge [OF this] ge show ?thesis by simp
  qed
qed

lemma parseUserClause_ge: "parseUserClause inp pos = Inr (v, p) \<Longrightarrow> pos \<le> p"
proof -
  assume a: "parseUserClause inp pos = Inr (v, p)"
  let ?p = "skipWhitespace inp pos"
  have ge: "pos \<le> ?p" by (rule skipWhitespace_ge)
  from a have "parseTag inp ?p = Inr (v, p) \<or> readUntilBrace inp ?p = (v, p)"
    by (auto simp: parseUserClause_def parseUserIdentifier_def split: if_splits)
  then show ?thesis
    using parseTag_ge [of inp ?p v p] readUntilBrace_ge [of inp ?p v p] ge by auto
qed

lemma parseBetween_ge: "parseBetween inp pos = Inr (node, p) \<Longrightarrow> pos \<le> p"
proof -
  assume a: "parseBetween inp pos = Inr (node, p)"
  then obtain sv p1 ev where t1: "parseTag inp (skipWhitespace inp pos) = Inr (sv, p1)"
    and t2: "parseTag inp (skipWhitespace inp p1) = Inr (ev, p)"
    by (auto simp: parseBetween_def split: sum.splits prod.splits)
  from parseTag_ge [OF t1] parseTag_ge [OF t2]
    skipWhitespace_ge [of pos inp] skipWhitespace_ge [of p1 inp]
  show ?thesis by simp
qed

lemma withNode_Inr: "withNode mk r = Inr (node, p) \<Longrightarrow> \<exists>v. r = Inr (v, p)"
  by (auto simp: withNode_def split: sum.splits prod.splits)

lemma parseLeafOperator_ge: "parseLeafOperator inp operator pos = Inr (node, p) \<Longrightarrow> pos \<le> p"
  by (auto simp: parseLeafOperator_def Let_def split: if_splits
           dest!: withNode_Inr dest: parseBetween_ge parseSearch_ge parseUserClause_ge)

lemma parseOperatorHead_ge:
  "parseOperatorHead inp pos = Inr (operator, p) \<Longrightarrow> pos + 1 \<le> p \<and> pos < length inp"
proof -
  assume a: "parseOperatorHead inp pos = Inr (operator, p)"
  then obtain p1 p2 p3 where e1: "expect inp pos (CHR ''{'') = Inr p1"
    and n: "parseOperatorName inp (skipWhitespace inp p1) = (operator, p2)"
    and e2: "expect inp (skipWhitespace inp p2) (CHR '':'') = Inr p3"
    and p: "p = skipWhitespace inp p3"
    by (auto simp: parseOperatorHead_def split: sum.splits prod.splits)
  from expect_Inr [OF e1] expect_Inr [OF e2] parseOperatorName_ge [OF n]
    skipWhitespace_ge [of p1 inp] skipWhitespace_ge [of p2 inp] skipWhitespace_ge [of p3 inp] p
  show ?thesis by simp
qed

lemma closeOperator_Inr:
  "closeOperator inp r = Inr (node, p') \<Longrightarrow> \<exists>p. r = Inr (node, p) \<and> p < p'"
proof -
  assume a: "closeOperator inp r = Inr (node, p')"
  then obtain p where r: "r = Inr (node, p)"
    and e: "expect inp (skipWhitespace inp p) (CHR ''}'') = Inr p'"
    by (auto simp: closeOperator_def split: sum.splits prod.splits)
  from expect_Inr [OF e] skipWhitespace_ge [of p inp] r show ?thesis by auto
qed

lemma map_option_closeOperator:
  assumes "map_option (closeOperator inp) r = Some (Inr (node, p'))"
  shows "\<exists>p. r = Some (Inr (node, p)) \<and> p < p'"
proof -
  from assms obtain r0 where r: "r = Some r0" and c: "closeOperator inp r0 = Inr (node, p')"
    by (cases r) auto
  from closeOperator_Inr [OF c] r show ?thesis by auto
qed

lemma parse_progress:
  "parseExpression n inp pos = Some (Inr (node, p)) \<Longrightarrow> pos < p"
  "parseOperator n inp pos = Some (Inr (node, p)) \<Longrightarrow> pos < p"
  "parseAndOr n inp pos ty = Some (Inr (node, p)) \<Longrightarrow> pos \<le> p"
  "parseAndOrLoop n inp pos children = Some (Inr (cs, p)) \<Longrightarrow> pos \<le> p"
  "parseNot n inp pos = Some (Inr (node, p)) \<Longrightarrow> pos \<le> p"
proof (induction n inp pos and n inp pos and n inp pos ty and n inp pos children and n inp pos
       arbitrary: node p and node p and node p and cs p and node p
       rule: parseExpression_parseOperator_parseAndOr_parseAndOrLoop_parseNot.induct)
  case (1 inp pos)
  then show ?case by simp
next
  case (2 n inp pos)
  let ?x = "skipWhitespace inp pos"
  have ge: "pos \<le> ?x" by (rule skipWhitespace_ge)
  show ?case
  proof (cases "charAt inp ?x = Some (CHR ''{'')")
    case True
    with "2.prems" have "parseOperator n inp ?x = Some (Inr (node, p))"
      by (simp add: Let_def)
    from "2.IH" [OF refl True this] ge show ?thesis by simp
  next
    case False
    with "2.prems" have "(\<exists>v. parseTag inp ?x = Inr (v, p)) \<or> (\<exists>v. parseBlockRef inp ?x = Inr (v, p))"
      by (auto simp: Let_def split: if_splits dest: withNode_Inr)
    then show ?thesis
      using ge by (auto dest!: parseTag_ge parseBlockRef_ge)
  qed
next
  case (3 n inp pos)
  from "3.prems" obtain operator y where h: "parseOperatorHead inp pos = Inr (operator, y)"
    and m: "map_option (closeOperator inp)
            (if toLowerCase operator = ''and'' then parseAndOr n inp y ''and''
             else if toLowerCase operator = ''or'' then parseAndOr n inp y ''or''
             else if toLowerCase operator = ''not'' then parseNot n inp y
             else Some (parseLeafOperator inp operator y)) = Some (Inr (node, p))"
    by (subst (asm) parseOperator.simps) (auto split: sum.splits prod.splits)
  from parseOperatorHead_ge [OF h] have py: "pos < y" by simp
  from map_option_closeOperator [OF m] obtain p0
    where r: "(if toLowerCase operator = ''and'' then parseAndOr n inp y ''and''
             else if toLowerCase operator = ''or'' then parseAndOr n inp y ''or''
             else if toLowerCase operator = ''not'' then parseNot n inp y
             else Some (parseLeafOperator inp operator y)) = Some (Inr (node, p0))"
      and p0: "p0 < p"
    by blast
  have "y \<le> p0"
  proof (cases "toLowerCase operator = ''and''")
    case True
    with r have "parseAndOr n inp y ''and'' = Some (Inr (node, p0))" by simp
    from "3.IH"(1) [OF h refl True this] show ?thesis .
  next
    case nand: False
    show ?thesis
    proof (cases "toLowerCase operator = ''or''")
      case True
      with r nand have "parseAndOr n inp y ''or'' = Some (Inr (node, p0))" by simp
      from "3.IH"(2) [OF h refl nand True this] show ?thesis .
    next
      case nor: False
      show ?thesis
      proof (cases "toLowerCase operator = ''not''")
        case True
        with r nand nor have "parseNot n inp y = Some (Inr (node, p0))" by simp
        from "3.IH"(3) [OF h refl nand nor True this] show ?thesis .
      next
        case False
        with r nand nor have "parseLeafOperator inp operator y = Inr (node, p0)" by simp
        then show ?thesis by (rule parseLeafOperator_ge)
      qed
    qed
  qed
  with py p0 show ?case by simp
next
  case (4 n inp pos ty)
  from "4.prems" obtain children
    where "parseAndOrLoop n inp (skipWhitespace inp pos) [] = Some (Inr (children, p))"
    by (subst (asm) parseAndOr.simps) (auto split: option.splits sum.splits prod.splits if_splits)
  from "4.IH" [OF this] skipWhitespace_ge [of pos inp] show ?case by simp
next
  case (5 inp pos children)
  then show ?case by simp
next
  case (6 n inp pos children)
  show ?case
  proof (cases "pos < length inp \<and> charAt inp pos \<noteq> Some (CHR ''}'')")
    case False
    with "6.prems" show ?thesis by auto
  next
    case True
    with "6.prems" obtain child y where e: "parseExpression n inp pos = Some (Inr (child, y))"
      and l: "parseAndOrLoop n inp (skipWhitespace inp y) (children @ [child]) = Some (Inr (cs, p))"
      by (auto split: option.splits sum.splits prod.splits)
    from "6.IH"(1) [OF True e] "6.IH"(2) [OF True e refl refl l] skipWhitespace_ge [of y inp]
    show ?thesis by simp
  qed
next
  case (7 n inp pos)
  from "7.prems" obtain child
    where "parseExpression n inp (skipWhitespace inp pos) = Some (Inr (child, p))"
    by (subst (asm) parseNot.simps) (auto split: option.splits sum.splits prod.splits)
  from "7.IH" [OF this] skipWhitespace_ge [of pos inp] show ?case by simp
qed

lemma parse_enough_fuel:
  "2 * (length inp - pos) + 1 \<le> n \<Longrightarrow> parseExpression n inp pos \<noteq> None"
  "2 * (length inp - pos) \<le> n \<Longrightarrow> parseOperator n inp pos \<noteq> None"
  "2 * (length inp - pos) + 2 \<le> n \<Longrightarrow> parseAndOr n inp pos ty \<noteq> None"
  "2 * (length inp - pos) + 2 \<le> n \<Longrightarrow> parseAndOrLoop n inp pos children \<noteq> None"
  "2 * (length inp - pos) + 1 \<le> n \<Longrightarrow> parseNot n inp pos \<noteq> None"
proof (induction n inp pos and n inp pos and n inp pos ty and n inp pos children and n inp pos
       rule: parseExpression_parseOperator_parseAndOr_parseAndOrLoop_parseNot.induct)
  case (1 inp pos)
  then show ?case by simp
next
  case (2 n inp pos)
  let ?x = "skipWhitespace inp pos"
  have ge: "pos \<le> ?x" by (rule skipWhitespace_ge)
  show ?case
  proof (cases "charAt inp ?x = Some (CHR ''{'')")
    case True
    from "2.prems" ge have "2 * (length inp - ?x) \<le> n" by simp
    from "2.IH" [OF refl True this] True show ?thesis
      by (simp add: Let_def)
  next
    case False
    then show ?thesis by (simp add: Let_def)
  qed
next
  case (3 n inp pos)
  show ?case
  proof (cases "parseOperatorHead inp pos")
    case (Inl e)
    then show ?thesis by (subst parseOperator.simps) simp
  next
    case (Inr b)
    obtain operator y where b: "b = (operator, y)" by (cases b)
    with Inr have h: "parseOperatorHead inp pos = Inr (operator, y)" by simp
    from parseOperatorHead_ge [OF h] "3.prems"
    have fuel: "2 * (length inp - y) + 2 \<le> n" by arith
    have inner: "(if toLowerCase operator = ''and'' then parseAndOr n inp y ''and''
             else if toLowerCase operator = ''or'' then parseAndOr n inp y ''or''
             else if toLowerCase operator = ''not'' then parseNot n inp y
             else Some (parseLeafOperator inp operator y)) \<noteq> None"
    proof (cases "toLowerCase operator = ''and''")
      case True
      from "3.IH"(1) [OF h refl True fuel] True show ?thesis by simp
    next
      case nand: False
      show ?thesis
      proof (cases "toLowerCase operator = ''or''")
        case True
        from "3.IH"(2) [OF h refl nand True fuel] nand True show ?thesis by simp
      next
        case nor: False
        show ?thesis
        proof (cases "toLowerCase operator = ''not''")
          case True
          from fuel have "2 * (length inp - y) + 1 \<le> n" by simp
          from "3.IH"(3) [OF h refl nand nor True this] nand nor True show ?thesis by simp
        next
          case False
          with nand nor show ?thesis by simp
        qed
      qed
    qed
    then show ?thesis
      by (subst parseOperator.simps) (simp add: h)
  qed
next
  case (4 n inp pos ty)
  from "4.prems" skipWhitespace_ge [of pos inp]
  have "2 * (length inp - skipWhitespace inp pos) + 2 \<le> n" by simp
  from "4.IH" [OF this] show ?case
    by (subst parseAndOr.simps) (auto split: option.splits sum.splits prod.splits)
next
  case (5 inp pos children)
  then show ?case by simp
next
  case (6 n inp pos children)
  show ?case
  proof (cases "pos < length inp \<and> charAt inp pos \<noteq> Some (CHR ''}'')")
    case False
    then show ?thesis by auto
  next
    case True
    from "6.prems" have f1: "2 * (length inp - pos) + 1 \<le> n" by simp
    from "6.IH"(1) [OF True f1] obtain r where e: "parseExpression n inp pos = Some r"
      by blast
    show ?thesis
    proof (cases r)
      case (Inl err)
      with e True show ?thesis by simp
    next
      case (Inr b)
      obtain child y where b: "b = (child, y)" by (cases b)
      with Inr e have e': "parseExpression n inp pos = Some (Inr (child, y))" by simp
      from parse_progress(1) [OF e'] skipWhitespace_ge [of y inp]
      have "pos < skipWhitespace inp y" by simp
      with True "6.prems"
      have f2: "2 * (length inp - skipWhitespace inp y) + 2 \<le> n" by arith
      from "6.IH"(2) [OF True e' refl refl f2] e' True show ?thesis by simp
    qed
  qed
next
  case (7 n inp pos)
  from "7.prems" skipWhitespace_ge [of pos inp]
  have "2 * (length inp - skipWhitespace inp pos) + 1 \<le> n" by simp
  from "7.IH" [OF this] show ?case
    by (subst parseNot.simps) (auto split: option.splits sum.splits prod.splits)
qed

lemma parseQueryWithName_total: "\<exists>r. parseQueryWithName s = Some r"
proof -
  define inp where "inp = extractQueryExpression s"
  define fuel where "fuel = 2 * length inp + 1"
  define named where "named =
     (if charAt inp (skipWhitespace inp 0) = Some (CHR 0x22) then
        (case parseQuotedString inp (skipWhitespace inp 0) of
           Inl e \<Rightarrow> Inl e
         | Inr (v, p) \<Rightarrow> Inr (Some v, skipWhitespace inp p))
      else Inr (None, skipWhitespace inp 0))"
  have tot: "parseExpression fuel inp p \<noteq> None" for p
    unfolding fuel_def by (rule parse_enough_fuel(1)) simp
  have unfold: "parseQueryWithName s =
     (case named of
        Inl e \<Rightarrow> Some (Inl e)
      | Inr (nm, p1) \<Rightarrow>
          (case parseExpression fuel inp p1 of
             None \<Rightarrow> None
           | Some (Inl e) \<Rightarrow> Some (Inl e)
           | Some (Inr (qn, p2)) \<Rightarrow>
               (let p3 = skipWhitespace inp p2
                in if p3 < length inp then
                     Some (Inl (QueryParseError
                             (''Unexpected content after query: '' @ dq @ drop p3 inp @ dq) p3))
                   else Some (Inr \<lparr> name = nm, query = qn \<rparr>))))"
    unfolding parseQueryWithName_def Let_def inp_def [symmetric] fuel_def [symmetric]
      named_def [symmetric] ..
  show ?thesis
  proof (cases named)
    case (Inl e)
    then show ?thesis unfolding unfold by simp
  next
    case (Inr b)
    obtain nm p1 where b: "b = (nm, p1)" by (cases b)
    from tot [of p1] obtain r where r: "parseExpression fuel inp p1 = Some r" by blast
    show ?thesis
      unfolding unfold Inr b using r
      by (cases r) (auto simp: Let_def split: prod.splits)
  qed
qed

lemma parse_total: "\<exists>r. parse s = Some r"
  using parseQueryWithName_total [of s]
  by (auto simp: parse_def split: sum.splits option.splits)

lemma resolveRows_fails:
  "i < length rows \<Longrightarrow> resolveRefs caps (element (rows ! i) 1) = Inl e
     \<Longrightarrow> (\<forall>j<i. \<forall>e'. resolveRefs caps (element (rows ! j) 1) \<noteq> Inl e')
     \<Longrightarrow> resolveRows caps rows = Inl e"
proof (induction rows arbitrary: i)
  case Nil
  then show ?case by simp
next
  case (Cons row rows)
  show ?case
  proof (cases i)
    case 0
    with Cons.prems(2) show ?thesis by simp
  next
    case (Suc k)
    with Cons.prems(3) have "\<forall>e'. resolveRefs caps (element row 1) \<noteq> Inl e'" by auto
    then obtain v where v: "resolveRefs caps (element row 1) = Inr v"
      by (cases "resolveRefs caps (element row 1)") auto
    from Suc Cons.prems have k: "k < length rows"
      and f: "resolveRefs caps (element (rows ! k) 1) = Inl e" by simp_all
    have b: "\<forall>j<k. \<forall>e'. resolveRefs caps (element (rows ! j) 1) \<noteq> Inl e'"
    proof (intro allI impI)
      fix j e' assume "j < k"
      then have "Suc j < i" using Suc by simp
      with Cons.prems(3) have "resolveRefs caps (element ((row # rows) ! Suc j) 1) \<noteq> Inl e'"
        by blast
      then show "resolveRefs caps (element (rows ! j) 1) \<noteq> Inl e'" by simp
    qed
    from Cons.IH [OF k f b] v show ?thesis by simp
  qed
qed

lemma resolveRows_succeeds:
  "(\<forall>i<length rows. \<forall>e. resolveRefs caps (element (rows ! i) 1) \<noteq> Inl e)
     \<Longrightarrow> \<exists>ms. resolveRows caps rows = Inr ms"
proof (induction rows)
  case Nil
  then show ?case by simp
next
  case (Cons row rows)
  from Cons.prems have "\<forall>e. resolveRefs caps (element ((row # rows) ! 0) 1) \<noteq> Inl e"
    by blast
  then obtain v where v: "resolveRefs caps (element row 1) = Inr v"
    by (cases "resolveRefs caps (element row 1)") auto
  have "\<forall>i<length rows. \<forall>e. resolveRefs caps (element (rows ! i) 1) \<noteq> Inl e"
  proof (intro allI impI)
    fix i e assume "i < length rows"
    then have "Suc i < length (row # rows)" by simp
    with Cons.prems have "resolveRefs caps (element ((row # rows) ! Suc i) 1) \<noteq> Inl e"
      by blast
    then show "resolveRefs caps (element (rows ! i) 1) \<noteq> Inl e" by simp
  qed
  from Cons.IH [OF this] v show ?case by auto
qed

lemma executeQuery_success:
  "executeQuery clk caps ast options = Inr r \<Longrightarrow> success r"
  by (auto simp: executeQuery_def split: sum.splits prod.splits if_splits)

lemma execute_total: "\<exists>r. execute clk caps queryBlock options = Some r"
  using parse_total [of queryBlock]
  by (auto simp: execute_def split: sum.splits)

lemma execute_result:
  assumes "execute clk caps queryBlock options = Some (Inr r)"
  shows "success r \<or> matches r = []"
proof -
  have f: "failure e = Inr r \<Longrightarrow> matches r = []" for e
    by (auto simp: failure_def split: sum.splits)
  from assms show ?thesis
    by (auto simp: execute_def split: option.splits sum.splits
          dest: f executeQuery_success)
qed

lemma execute_parse_error:
  "parse queryBlock = Some (Inl e) \<Longrightarrow> execute clk caps queryBlock options = Some (failure e)"
  by (simp add: execute_def)

lemma execute_later_error:
  "parse queryBlock = Some (Inr ast) \<Longrightarrow> executeQuery clk caps ast options = Inl e \<Longrightarrow>
     execute clk caps queryBlock options = Some (failure e)"
  by (simp add: execute_def)

lemma executeQuery_generate_error:
  "generate clk ast = Inl e \<Longrightarrow> executeQuery clk caps ast options = Inl e"
  by (simp add: executeQuery_def)

lemma executeQuery_q_error:
  assumes "generate clk ast = Inr clauses"
    and "buildDatalogQuery clauses
           \<lparr> limit = limit options, offset = offset options,
             orderBy = (if truthy (orderBy options) then orderBy options
                        else Some ''?block-uid asc''),
             pageUid = pageUid options, select = None \<rparr> = (queryText, args)"
    and "q caps queryText args = Inl e"
  shows "executeQuery clk caps ast options = Inl e"
  using assms by (simp add: executeQuery_def)

lemma executeQuery_resolveRefs_error:
  assumes "generate clk ast = Inr clauses"
    and "buildDatalogQuery clauses
           \<lparr> limit = limit options, offset = offset options,
             orderBy = (if truthy (orderBy options) then orderBy options
                        else Some ''?block-uid asc''),
             pageUid = pageUid options, select = None \<rparr> = (queryText, args)"
    and "q caps queryText args = Inr rawResults"
    and "resolveRows caps rawResults = Inl e"
  shows "executeQuery clk caps ast options = Inl e"
  using assms by (simp add: executeQuery_def)

lemma executeQuery_count_error:
  assumes "generate clk ast = Inr clauses"
    and "buildDatalogQuery clauses
           \<lparr> limit = limit options, offset = offset options,
             orderBy = (if truthy (orderBy options) then orderBy options
                        else Some ''?block-uid asc''),
             pageUid = pageUid options, select = None \<rparr> = (queryText, args)"
    and "q caps queryText args = Inr rawResults"
    and "resolveRows caps rawResults = Inr ms"
    and "limit options \<noteq> None" and "limit options \<noteq> Some (- 1)"
    and "buildCountQuery clauses (pageUid options) = (countText, countArgs)"
    and "q caps countText countArgs = Inl e"
  shows "executeQuery clk caps ast options = Inl e"
  using assms by (simp add: executeQuery_def)



text \<open>
  C9 at an unclosed block reference.  \<^verbatim>\<open>parseTag\<close> raises on an unclosed
  \<^verbatim>\<open>[[\<close>; the loop of \<^verbatim>\<open>parseBlockRef\<close> runs to the end of the input without
  finding \<^verbatim>\<open>))\<close> and the text read so far is returned as the identifier.
\<close>

theorem parse_unclosed_block_ref:
  "parse ''((unclosed'' = Some (Inr (BlockRefNode ''unclosed''))
   \<and> parse ''[[unclosed'' = Some (Inl (QueryParseError ''Unclosed tag reference'' 10))
   \<and> parse ''{unknown: [[tag]]}'' = Some (Inl (QueryParseError ''Unknown operator: unknown'' 10))
   \<and> parse ''{and: }'' =
       Some (Inl (QueryParseError ''and operator requires at least one child'' 6))"
  by code_simp

end
